theory Spec2Isabelle
  imports Complex_Main "HOL-Library.Word"
begin

unbundle bit_operations_syntax

section \<open>The tinyhist data type\<close>

text \<open>
  The histogram of \<^verbatim>\<open>tinyhist.c\<close> is a 32-byte struct: two 4-bit fields sharing one
  byte and a buffer of 31 bytes that holds the 16 bit-packed counters.  The 4-bit fields
  are words of length 4, so \<^verbatim>\<open>hist->sample++\<close> and \<^verbatim>\<open>hist->unit++\<close> wrap from 15 to 0 as
  the C bit-fields do.  The buffer is a list of bytes; every histogram the C code handles
  has exactly 31 of them, which is the predicate \<open>hist_ok\<close>.
\<close>

record tinyhist_t =
  sample :: "4 word"
  unit :: "4 word"
  data :: "8 word list"

definition hist_ok :: "tinyhist_t \<Rightarrow> bool" where
  "hist_ok hist \<longleftrightarrow> length (data hist) = 31"

text \<open>\<^verbatim>\<open>palloc0(sizeof(tinyhist_t))\<close>: a zero-filled histogram.\<close>

definition palloc0_hist :: tinyhist_t where
  "palloc0_hist = \<lparr>sample = 0, unit = 0, data = replicate 31 0\<rparr>"

definition HISTOGRAM_BUCKETS :: nat where
  "HISTOGRAM_BUCKETS = 16"

definition bucket_bits :: "nat list" where
  "bucket_bits = [8, 9, 10, 11, 12, 13, 14, 15, 16, 17, 18, 19, 20, 21, 22, 23]"

definition bucket_offset :: "nat list" where
  "bucket_offset = [0, 8, 17, 27, 38, 50, 63, 77, 92, 108, 125, 143, 162, 182, 203, 225]"

text \<open>
  Errors of the C code as values.  \<open>AssertFailed\<close> is a failing \<^verbatim>\<open>Assert\<close>; PostgreSQL
  compiles assertions in only when built with assertion checking, so every function that
  asserts takes the flag \<open>cassert\<close> (True: assertions are checked, False: they are
  no-ops, as in a production build).  \<open>Elog\<close> is \<^verbatim>\<open>elog(ERROR, ...)\<close> with its message.
  \<open>ShiftOverflow\<close> is the undefined \<^verbatim>\<open>1 << idx\<close> of a 32-bit int for \<open>idx \<ge> 31\<close>.
  \<open>NoData\<close> is the error of \<^verbatim>\<open>pq_getmsgbyte\<close> on an exhausted message.
\<close>

datatype error = AssertFailed | Elog string | ShiftOverflow | NoData

section \<open>The bit-field codec\<close>

text \<open>
  \<^verbatim>\<open>bucket_get\<close> copies \<open>nbits\<close> bits out of the buffer, one at a time, into an int.
  The counts stay below \<open>2^23\<close>, far from the range of the C int, so the value is an
  \<open>int\<close>.  The function is only ever called with \<open>bucket < 16\<close> (loops over the 16
  buckets, and the result of \<^verbatim>\<open>bucket_index\<close> after the range was widened).
\<close>

definition bucket_get :: "tinyhist_t \<Rightarrow> nat \<Rightarrow> int" where
  "bucket_get hist bucket =
     (let nbits = bucket_bits ! bucket;
          offset = bucket_offset ! bucket
      in fold (\<lambda>i value.
                 let byte = (offset + i) div 8;
                     bit = (offset + i) mod 8
                 in if (data hist ! byte) AND (push_bit bit 1) \<noteq> 0
                    then value OR (push_bit i 1)
                    else value)
              [0..<nbits] 0)"

text \<open>The loop of \<^verbatim>\<open>bucket_set\<close>: set or reset each of the \<open>nbits\<close> bits.\<close>

definition bucket_store :: "tinyhist_t \<Rightarrow> nat \<Rightarrow> int \<Rightarrow> tinyhist_t" where
  "bucket_store hist bucket count =
     (let nbits = bucket_bits ! bucket;
          offset = bucket_offset ! bucket
      in fold (\<lambda>i h.
                 let byte = (offset + i) div 8;
                     bit = (offset + i) mod 8
                 in if count AND (push_bit i 1) \<noteq> 0
                    then h\<lparr>data := (data h)[byte := (data h ! byte) OR (push_bit bit 1)]\<rparr>
                    else h\<lparr>data := (data h)[byte := (data h ! byte) AND NOT (push_bit bit 1)]\<rparr>)
              [0..<nbits] hist)"

text \<open>
  \<^verbatim>\<open>bucket_set\<close> with its two assertions: the bucket index is in range and the count
  is below the capacity \<open>2^nbits\<close> of the bucket.
\<close>

definition bucket_set :: "bool \<Rightarrow> tinyhist_t \<Rightarrow> nat \<Rightarrow> int \<Rightarrow> error + tinyhist_t" where
  "bucket_set cassert hist bucket count =
     (if cassert \<and> \<not> bucket < HISTOGRAM_BUCKETS then Inl AssertFailed
      else if cassert \<and> \<not> count < push_bit (bucket_bits ! bucket) 1 then Inl AssertFailed
      else Inr (bucket_store hist bucket count))"

definition bucket_maxcount :: "nat \<Rightarrow> int" where
  "bucket_maxcount bucket = push_bit (bucket_bits ! bucket) 1 - 1"

text \<open>\<^verbatim>\<open>hist_maxvalue\<close>: the upper boundary of the last bucket, an int64 (at most \<open>2^30\<close>).\<close>

definition hist_maxvalue :: "tinyhist_t \<Rightarrow> int" where
  "hist_maxvalue hist = push_bit (unat (unit hist)) 1 * push_bit (HISTOGRAM_BUCKETS - 1) 1"

section \<open>Loops over the buckets\<close>

text \<open>
  A \<^verbatim>\<open>for\<close> loop whose body may fail: the body is run on each element in turn and the
  first error ends the loop.
\<close>

primrec for_loop :: "('a \<Rightarrow> 's \<Rightarrow> error + 's) \<Rightarrow> 'a list \<Rightarrow> 's \<Rightarrow> error + 's" where
  "for_loop body [] s = Inr s"
| "for_loop body (x # xs) s =
     (case body x s of Inl e \<Rightarrow> Inl e | Inr s' \<Rightarrow> for_loop body xs s')"

section \<open>The range and sample controller\<close>

text \<open>
  \<^verbatim>\<open>hist_adjust_sample\<close>: cut all buckets in half, then \<^verbatim>\<open>hist->sample++\<close> on the 4-bit
  field.  The counts are never negative, so the truncating \<^verbatim>\<open>cnt/2\<close> of C is \<open>div\<close>.
\<close>

definition hist_adjust_sample :: "bool \<Rightarrow> tinyhist_t \<Rightarrow> error + tinyhist_t" where
  "hist_adjust_sample cassert hist =
     (case for_loop (\<lambda>i h. let cnt = bucket_get h i in bucket_set cassert h i (cnt div 2))
             [0..<HISTOGRAM_BUCKETS] hist of
        Inl e \<Rightarrow> Inl e
      | Inr h \<Rightarrow> Inr (h\<lparr>sample := sample h + 1\<rparr>))"

text \<open>
  \<^verbatim>\<open>hist_adjust_unit\<close>: merge the first two buckets, shift the others down, reset the
  last one, then \<^verbatim>\<open>hist->unit++\<close> on the 4-bit field.
\<close>

definition hist_adjust_unit :: "bool \<Rightarrow> tinyhist_t \<Rightarrow> error + tinyhist_t" where
  "hist_adjust_unit cassert hist =
     (case bucket_set cassert hist 0 (bucket_get hist 0 + bucket_get hist 1) of
        Inl e \<Rightarrow> Inl e
      | Inr h1 \<Rightarrow>
          (case for_loop (\<lambda>i h. bucket_set cassert h i (bucket_get h (i + 1)))
                  [1..<HISTOGRAM_BUCKETS - 1] h1 of
             Inl e \<Rightarrow> Inl e
           | Inr h2 \<Rightarrow>
               (case bucket_set cassert h2 (HISTOGRAM_BUCKETS - 1) 0 of
                  Inl e \<Rightarrow> Inl e
                | Inr h3 \<Rightarrow> Inr (h3\<lparr>unit := unit h3 + 1\<rparr>))))"

text \<open>
  The values are C doubles (PostgreSQL \<^verbatim>\<open>float8\<close>): a finite number, an infinity or NaN.
  The code only compares a value with an int64 that is a power of two up to \<open>2^45\<close>, which
  converts to a double exactly, so a finite double is modelled by the real it denotes.
  Every comparison with NaN is false.
\<close>

datatype float8 = Finite real | PlusInfinity | MinusInfinity | NaN

fun int_lt_float8 :: "int \<Rightarrow> float8 \<Rightarrow> bool" where
  "int_lt_float8 m (Finite x) = (real_of_int m < x)"
| "int_lt_float8 m PlusInfinity = True"
| "int_lt_float8 m MinusInfinity = False"
| "int_lt_float8 m NaN = False"

fun int_ge_float8 :: "int \<Rightarrow> float8 \<Rightarrow> bool" where
  "int_ge_float8 m (Finite x) = (real_of_int m \<ge> x)"
| "int_ge_float8 m PlusInfinity = False"
| "int_ge_float8 m MinusInfinity = True"
| "int_ge_float8 m NaN = False"

text \<open>
  The test inside the \<^verbatim>\<open>while (true)\<close> loop of \<^verbatim>\<open>hist_adjust_range\<close>: would merging the first
  two buckets, or shifting one of the others, fill a bucket?
\<close>

definition adjust_sample_needed :: "tinyhist_t \<Rightarrow> bool" where
  "adjust_sample_needed hist =
     fold (\<lambda>i adjust_sample.
             if bucket_get hist (i + 1) \<ge> bucket_maxcount i then True else adjust_sample)
          [1..<HISTOGRAM_BUCKETS - 1]
          (if bucket_get hist 0 + bucket_get hist 1 \<ge> bucket_maxcount 0 then True else False)"

text \<open>
  The inner \<^verbatim>\<open>while (true)\<close> loop and the outer \<^verbatim>\<open>while (hist_maxvalue(hist) < value)\<close> loop.
  Neither has an iteration bound in the source, so both are partial functions: \<open>None\<close>
  means that the loop never ends.
\<close>

partial_function (option) sample_loop :: "bool \<Rightarrow> tinyhist_t \<Rightarrow> (error + tinyhist_t) option" where
  "sample_loop cassert hist =
     (if \<not> adjust_sample_needed hist then Some (Inr hist)
      else (case hist_adjust_sample cassert hist of
              Inl e \<Rightarrow> Some (Inl e)
            | Inr h \<Rightarrow> sample_loop cassert h))"

partial_function (option) hist_adjust_range ::
  "bool \<Rightarrow> tinyhist_t \<Rightarrow> float8 \<Rightarrow> (error + tinyhist_t) option" where
  "hist_adjust_range cassert hist value =
     (if int_lt_float8 (hist_maxvalue hist) value
      then Option.bind (sample_loop cassert hist)
             (\<lambda>r. case r of
                     Inl e \<Rightarrow> Some (Inl e)
                   | Inr h1 \<Rightarrow>
                       (case hist_adjust_unit cassert h1 of
                          Inl e \<Rightarrow> Some (Inl e)
                        | Inr h2 \<Rightarrow> hist_adjust_range cassert h2 value))
      else Some (Inr hist))"

text \<open>
  \<^verbatim>\<open>bucket_index\<close>.  The loop computes \<^verbatim>\<open>(1 << idx) * unit\<close> with a 32-bit \<^verbatim>\<open>1 << idx\<close>,
  which is undefined from \<open>idx = 31\<close> on: the model stops there with \<open>ShiftOverflow\<close>.
  Below that the int64 product is at most \<open>2^30 * 2^15\<close> and cannot overflow.
\<close>

function bucket_index_loop :: "int \<Rightarrow> float8 \<Rightarrow> nat \<Rightarrow> error + nat" where
  "bucket_index_loop unit64 value idx =
     (if 31 \<le> idx then Inl ShiftOverflow
      else if int_lt_float8 (push_bit idx 1 * unit64) value
           then bucket_index_loop unit64 value (idx + 1)
           else Inr idx)"
  by pat_completeness auto
termination
  by (relation "measure (\<lambda>(unit64, value, idx). 31 - idx)") auto

definition bucket_index :: "bool \<Rightarrow> tinyhist_t \<Rightarrow> float8 \<Rightarrow> error + nat" where
  "bucket_index cassert hist value =
     (let unit64 = push_bit (unat (unit hist)) 1
      in if cassert \<and> \<not> int_ge_float8 (hist_maxvalue hist) value then Inl AssertFailed
         else (case bucket_index_loop unit64 value 0 of
                 Inl e \<Rightarrow> Inl e
               | Inr idx \<Rightarrow>
                   if cassert \<and> \<not> idx < HISTOGRAM_BUCKETS then Inl AssertFailed
                   else Inr idx))"

text \<open>
  \<^verbatim>\<open>hist_sample\<close>: the draw \<^verbatim>\<open>random()\<close> is the argument \<open>r\<close>; the value is sampled when
  the lowest \<open>sample\<close> bits of the draw are zero.
\<close>

definition hist_sample :: "tinyhist_t \<Rightarrow> int \<Rightarrow> bool" where
  "hist_sample hist r =
     (let s = push_bit (unat (sample hist)) 1 - 1
      in r AND s = 0)"

section \<open>The accumulator\<close>

text \<open>
  \<^verbatim>\<open>tinyhist_accum\<close>, the transition function of the aggregate.  \<open>agg_context\<close> is the
  result of \<^verbatim>\<open>AggCheckCallContext\<close>; the two arguments are \<open>None\<close> when SQL NULL.  The
  result is \<open>None\<close> when the call never returns, an error, or the returned datum
  (\<open>None\<close> for SQL NULL).
\<close>

definition tinyhist_accum ::
  "bool \<Rightarrow> bool \<Rightarrow> tinyhist_t option \<Rightarrow> float8 option \<Rightarrow> int
     \<Rightarrow> (error + tinyhist_t option) option" where
  "tinyhist_accum cassert agg_context arg0 arg1 r =
     (if \<not> agg_context then Some (Inl (Elog ''tinyhist_add called in non-aggregate context''))
      else (case arg1 of
              None \<Rightarrow> Some (Inr arg0)
            | Some value \<Rightarrow>
                (let state = (case arg0 of None \<Rightarrow> palloc0_hist | Some s \<Rightarrow> s)
                 in if hist_sample state r
                    then Option.bind (hist_adjust_range cassert state value)
                           (\<lambda>res. case res of
                                     Inl e \<Rightarrow> Some (Inl e)
                                   | Inr s1 \<Rightarrow>
                                       (case bucket_index cassert s1 value of
                                          Inl e \<Rightarrow> Some (Inl e)
                                        | Inr bucket \<Rightarrow>
                                            (case (if bucket_get s1 bucket = bucket_maxcount bucket
                                                   then hist_adjust_sample cassert s1
                                                   else Inr s1) of
                                               Inl e \<Rightarrow> Some (Inl e)
                                             | Inr s2 \<Rightarrow>
                                                 (case bucket_set cassert s2 bucket
                                                         (bucket_get s2 bucket + 1) of
                                                    Inl e \<Rightarrow> Some (Inl e)
                                                  | Inr s3 \<Rightarrow> Some (Inr (Some s3))))))
                    else Some (Inr (Some state)))))"

section \<open>Properties of the bit-field codec\<close>

text \<open>
  Proof vocabulary: bit \<open>k\<close> of the buffer, and the bodies of the two bit loops as
  functions of their own.
\<close>

definition bitat :: "8 word list \<Rightarrow> nat \<Rightarrow> bool" where
  "bitat ds k \<longleftrightarrow> bit (ds ! (k div 8)) (k mod 8)"

definition get_step :: "8 word list \<Rightarrow> nat \<Rightarrow> nat \<Rightarrow> int \<Rightarrow> int" where
  "get_step ds offset i value =
     (let byte = (offset + i) div 8; bit = (offset + i) mod 8
      in if (ds ! byte) AND (push_bit bit 1) \<noteq> 0 then value OR (push_bit i 1) else value)"

lemma get_step_bit:
  "bit (get_step ds offset i value) j \<longleftrightarrow> bit value j \<or> (j = i \<and> bitat ds (offset + i))"
  by (auto simp: get_step_def Let_def bitat_def bit_or_iff bit_exp_iff
      and_exp_eq_0_iff_not_bit)

lemma get_loop_bit:
  "bit (fold (get_step ds offset) [0..<n] 0) j \<longleftrightarrow> j < n \<and> bitat ds (offset + j)"
  by (induction n) (auto simp: get_step_bit less_Suc_eq)

lemma bucket_get_fold:
  "bucket_get hist bucket =
     fold (get_step (data hist) (bucket_offset ! bucket)) [0..<bucket_bits ! bucket] 0"
  by (simp add: bucket_get_def Let_def get_step_def [abs_def])

lemma bucket_get_bit:
  "bit (bucket_get hist bucket) j \<longleftrightarrow>
     j < bucket_bits ! bucket \<and> bitat (data hist) (bucket_offset ! bucket + j)"
  by (simp add: bucket_get_fold get_loop_bit)

lemma bucket_get_take_bit:
  "take_bit (bucket_bits ! bucket) (bucket_get hist bucket) = bucket_get hist bucket"
  by (auto simp: bit_eq_iff bit_take_bit_iff bucket_get_bit)

lemma bucket_get_nonneg: "0 \<le> bucket_get hist bucket"
  by (metis bucket_get_take_bit take_bit_nonnegative)

lemma bucket_get_less: "bucket_get hist bucket < 2 ^ (bucket_bits ! bucket)"
  by (metis bucket_get_take_bit take_bit_int_less_exp)

definition set_step :: "nat \<Rightarrow> int \<Rightarrow> nat \<Rightarrow> tinyhist_t \<Rightarrow> tinyhist_t" where
  "set_step offset count i h =
     (let byte = (offset + i) div 8; bit = (offset + i) mod 8
      in if count AND (push_bit i 1) \<noteq> 0
         then h\<lparr>data := (data h)[byte := (data h ! byte) OR (push_bit bit 1)]\<rparr>
         else h\<lparr>data := (data h)[byte := (data h ! byte) AND NOT (push_bit bit 1)]\<rparr>)"

lemma set_step_fields:
  "sample (set_step offset count i h) = sample h"
  "unit (set_step offset count i h) = unit h"
  "length (data (set_step offset count i h)) = length (data h)"
  by (simp_all add: set_step_def Let_def)

lemma set_step_bitat:
  assumes "offset + i < 8 * length (data h)" "k < 8 * length (data h)"
  shows "bitat (data (set_step offset count i h)) k \<longleftrightarrow>
           (if k = offset + i then bit count i else bitat (data h) k)"
proof -
  have b: "(offset + i) div 8 < length (data h)" "k div 8 < length (data h)"
    using assms by auto
  have eq: "k = offset + i \<longleftrightarrow> k div 8 = (offset + i) div 8 \<and> k mod 8 = (offset + i) mod 8"
    by (metis div_mult_mod_eq)
  show ?thesis
    using b eq
    by (auto simp: set_step_def Let_def bitat_def nth_list_update bit_or_iff bit_and_iff
        bit_not_iff bit_exp_iff and_exp_eq_0_iff_not_bit)
qed

lemma set_loop_fields:
  "sample (fold (set_step offset count) [0..<n] h) = sample h"
  "unit (fold (set_step offset count) [0..<n] h) = unit h"
  "length (data (fold (set_step offset count) [0..<n] h)) = length (data h)"
  by (induction n) (simp_all add: set_step_fields)

lemma set_loop_bitat:
  assumes "offset + n \<le> 8 * length (data h)" "k < 8 * length (data h)"
  shows "bitat (data (fold (set_step offset count) [0..<n] h)) k \<longleftrightarrow>
           (if offset \<le> k \<and> k < offset + n then bit count (k - offset) else bitat (data h) k)"
  using assms
proof (induction n)
  case 0
  then show ?case by auto
next
  case (Suc n)
  let ?h = "fold (set_step offset count) [0..<n] h"
  have len: "length (data ?h) = length (data h)"
    by (simp add: set_loop_fields)
  have "bitat (data (set_step offset count n ?h)) k \<longleftrightarrow>
          (if k = offset + n then bit count n else bitat (data ?h) k)"
    using Suc.prems by (intro set_step_bitat) (simp_all add: len)
  moreover have "bitat (data ?h) k \<longleftrightarrow>
          (if offset \<le> k \<and> k < offset + n then bit count (k - offset) else bitat (data h) k)"
    using Suc by simp
  ultimately show ?case
    by (auto simp: less_Suc_eq)
qed

lemma bucket_store_fold:
  "bucket_store hist bucket count =
     fold (set_step (bucket_offset ! bucket) count) [0..<bucket_bits ! bucket] hist"
  by (simp add: bucket_store_def Let_def set_step_def [abs_def])

lemma bucket_layout:
  assumes "b < 16"
  shows "bucket_bits ! b = 8 + b" "bucket_offset ! b + bucket_bits ! b \<le> 248"
    "Suc b < 16 \<Longrightarrow> bucket_offset ! Suc b = bucket_offset ! b + bucket_bits ! b"
proof -
  have "b = 0 \<or> b = 1 \<or> b = 2 \<or> b = 3 \<or> b = 4 \<or> b = 5 \<or> b = 6 \<or> b = 7 \<or> b = 8
      \<or> b = 9 \<or> b = 10 \<or> b = 11 \<or> b = 12 \<or> b = 13 \<or> b = 14 \<or> b = 15"
    using assms by arith
  then show "bucket_bits ! b = 8 + b" "bucket_offset ! b + bucket_bits ! b \<le> 248"
    "Suc b < 16 \<Longrightarrow> bucket_offset ! Suc b = bucket_offset ! b + bucket_bits ! b"
    by (auto simp: bucket_bits_def bucket_offset_def)
qed

lemma bucket_offset_mono:
  assumes "i < j" "j < 16"
  shows "bucket_offset ! i + bucket_bits ! i \<le> bucket_offset ! j"
  using assms
proof (induction j)
  case 0
  then show ?case by simp
next
  case (Suc j)
  show ?case
  proof (cases "i = j")
    case True
    then show ?thesis using Suc.prems bucket_layout(3) [of j] by simp
  next
    case False
    then have "bucket_offset ! i + bucket_bits ! i \<le> bucket_offset ! j"
      using Suc by simp
    then show ?thesis using Suc.prems bucket_layout(3) [of j] by simp
  qed
qed

lemma bucket_store_fields:
  "sample (bucket_store hist bucket count) = sample hist"
  "unit (bucket_store hist bucket count) = unit hist"
  "length (data (bucket_store hist bucket count)) = length (data hist)"
  by (simp_all add: bucket_store_fold set_loop_fields)

lemma bucket_store_ok: "hist_ok hist \<Longrightarrow> hist_ok (bucket_store hist bucket count)"
  by (simp add: hist_ok_def bucket_store_fields)

lemma bucket_get_store_same:
  assumes "hist_ok hist" "b < 16"
  shows "bucket_get (bucket_store hist b count) b = take_bit (bucket_bits ! b) count"
proof (rule bit_eqI)
  fix j
  have fit: "bucket_offset ! b + bucket_bits ! b \<le> 8 * length (data hist)"
    using assms bucket_layout(2) [of b] by (simp add: hist_ok_def)
  show "bit (bucket_get (bucket_store hist b count) b) j \<longleftrightarrow>
          bit (take_bit (bucket_bits ! b) count) j"
  proof (cases "j < bucket_bits ! b")
    case True
    then show ?thesis
      using fit by (simp add: bucket_get_bit bit_take_bit_iff bucket_store_fold set_loop_bitat)
  next
    case False
    then show ?thesis
      by (simp add: bucket_get_bit bit_take_bit_iff)
  qed
qed

lemma bucket_get_store_other:
  assumes "hist_ok hist" "b < 16" "j < 16" "j \<noteq> b"
  shows "bucket_get (bucket_store hist b count) j = bucket_get hist j"
proof (rule bit_eqI)
  fix m
  have fit: "bucket_offset ! b + bucket_bits ! b \<le> 8 * length (data hist)"
    using assms bucket_layout(2) [of b] by (simp add: hist_ok_def)
  have fitj: "bucket_offset ! j + bucket_bits ! j \<le> 8 * length (data hist)"
    using assms bucket_layout(2) [of j] by (simp add: hist_ok_def)
  have disj: "bucket_offset ! j + bucket_bits ! j \<le> bucket_offset ! b
      \<or> bucket_offset ! b + bucket_bits ! b \<le> bucket_offset ! j"
    using assms bucket_offset_mono [of j b] bucket_offset_mono [of b j]
    by (cases "j < b") simp_all
  show "bit (bucket_get (bucket_store hist b count) j) m \<longleftrightarrow> bit (bucket_get hist j) m"
  proof (cases "m < bucket_bits ! j")
    case True
    then show ?thesis
      using fit fitj disj
      by (auto simp: bucket_get_bit bucket_store_fold set_loop_bitat)
  next
    case False
    then show ?thesis
      by (simp add: bucket_get_bit)
  qed
qed

section \<open>Effect of the operations on the fields\<close>

lemma for_loop_append:
  "for_loop body (xs @ ys) s =
     (case for_loop body xs s of Inl e \<Rightarrow> Inl e | Inr s' \<Rightarrow> for_loop body ys s')"
  by (induction xs arbitrary: s) (auto split: sum.splits)

lemma bucket_set_Inr:
  "bucket < 16 \<Longrightarrow> count < 2 ^ (bucket_bits ! bucket) \<Longrightarrow>
     bucket_set cassert hist bucket count = Inr (bucket_store hist bucket count)"
  by (simp add: bucket_set_def HISTOGRAM_BUCKETS_def)

lemma bucket_set_production:
  "bucket_set False hist bucket count = Inr (bucket_store hist bucket count)"
  by (simp add: bucket_set_def)

lemma bucket_set_fields:
  assumes "bucket_set cassert hist bucket count = Inr h"
  shows "sample h = sample hist" "unit h = unit hist" "length (data h) = length (data hist)"
  using assms by (auto simp: bucket_set_def bucket_store_fields split: if_splits)

lemma for_loop_invariant:
  assumes "for_loop body xs s = Inr s'" "P s"
    and "\<And>x a b. x \<in> set xs \<Longrightarrow> P a \<Longrightarrow> body x a = Inr b \<Longrightarrow> P b"
  shows "P s'"
  using assms
proof (induction xs arbitrary: s)
  case Nil
  then show ?case by simp
next
  case (Cons x xs)
  from Cons.prems(1) obtain s1 where s1: "body x s = Inr s1" "for_loop body xs s1 = Inr s'"
    by (auto split: sum.splits)
  have "P s1"
    using Cons.prems(3) [of x s s1] Cons.prems(2) s1(1) by simp
  moreover have "P b" if "y \<in> set xs" "P a" "body y a = Inr b" for y a b
    using Cons.prems(3) [of y a b] that by simp
  ultimately show ?case
    using Cons.IH [OF s1(2)] by blast
qed

lemma hist_adjust_sample_fields:
  assumes "hist_adjust_sample cassert hist = Inr h"
  shows "sample h = sample hist + 1" "unit h = unit hist" "length (data h) = length (data hist)"
proof -
  obtain h0 where loop: "for_loop (\<lambda>i h. let cnt = bucket_get h i in bucket_set cassert h i (cnt div 2))
             [0..<HISTOGRAM_BUCKETS] hist = Inr h0" and h: "h = h0\<lparr>sample := sample h0 + 1\<rparr>"
    using assms by (auto simp: hist_adjust_sample_def split: sum.splits)
  have "sample h0 = sample hist \<and> unit h0 = unit hist \<and> length (data h0) = length (data hist)"
    by (rule for_loop_invariant [OF loop]) (auto simp: Let_def dest: bucket_set_fields)
  then show "sample h = sample hist + 1" "unit h = unit hist" "length (data h) = length (data hist)"
    using h by simp_all
qed

lemma hist_adjust_unit_fields:
  assumes "hist_adjust_unit cassert hist = Inr h"
  shows "sample h = sample hist" "unit h = unit hist + 1" "length (data h) = length (data hist)"
proof -
  obtain h1 h2 h3 where
    s1: "bucket_set cassert hist 0 (bucket_get hist 0 + bucket_get hist 1) = Inr h1" and
    loop: "for_loop (\<lambda>i h. bucket_set cassert h i (bucket_get h (i + 1)))
                  [1..<HISTOGRAM_BUCKETS - 1] h1 = Inr h2" and
    s3: "bucket_set cassert h2 (HISTOGRAM_BUCKETS - 1) 0 = Inr h3" and
    h: "h = h3\<lparr>unit := unit h3 + 1\<rparr>"
    using assms by (auto simp: hist_adjust_unit_def split: sum.splits)
  have "sample h2 = sample h1 \<and> unit h2 = unit h1 \<and> length (data h2) = length (data h1)"
    by (rule for_loop_invariant [OF loop]) (auto dest: bucket_set_fields)
  then show "sample h = sample hist" "unit h = unit hist + 1" "length (data h) = length (data hist)"
    using h bucket_set_fields [OF s1] bucket_set_fields [OF s3] by simp_all
qed

section \<open>The merger\<close>

text \<open>
  The equalisation loops of \<^verbatim>\<open>tinyhist_combine\<close>:
  \<^verbatim>\<open>while (src->sample < sample) hist_adjust_sample(src);\<close> and its counterpart for the unit.
  The bound is the maximum of two 4-bit fields, so it is a 4-bit value itself, and the
  field cannot wrap before it reaches the bound.
\<close>

lemma unat_inc_4word:
  fixes w m :: "4 word"
  assumes "w < m"
  shows "unat (w + 1) = Suc (unat w)"
proof -
  have "unat m < 16"
    using unsigned_less [of m] by simp
  then have "unat w + 1 < 16"
    using assms by (simp add: word_less_nat_alt)
  then show ?thesis
    by (simp add: unat_word_ariths)
qed

function sample_until :: "bool \<Rightarrow> 4 word \<Rightarrow> tinyhist_t \<Rightarrow> error + tinyhist_t" where
  "sample_until cassert sample_max hist =
     (if sample hist < sample_max
      then (case hist_adjust_sample cassert hist of
              Inl e \<Rightarrow> Inl e
            | Inr h \<Rightarrow> sample_until cassert sample_max h)
      else Inr hist)"
  by pat_completeness auto
termination
proof (relation "measure (\<lambda>(cassert, sample_max, hist). unat sample_max - unat (sample hist))")
  show "wf (measure (\<lambda>(cassert, sample_max, hist). unat sample_max - unat (sample hist)))"
    by simp
next
  fix cassert sample_max hist h
  assume a: "sample hist < sample_max" "hist_adjust_sample cassert hist = Inr h"
  have "unat (sample h) = Suc (unat (sample hist))"
    using hist_adjust_sample_fields(1) [OF a(2)] unat_inc_4word [OF a(1)] by simp
  moreover have "unat (sample hist) < unat sample_max"
    using a(1) by (simp add: word_less_nat_alt)
  ultimately show "((cassert, sample_max, h), (cassert, sample_max, hist))
          \<in> measure (\<lambda>(cassert, sample_max, hist). unat sample_max - unat (sample hist))"
    by simp
qed

function unit_until :: "bool \<Rightarrow> 4 word \<Rightarrow> tinyhist_t \<Rightarrow> error + tinyhist_t" where
  "unit_until cassert unit_max hist =
     (if unit hist < unit_max
      then (case hist_adjust_unit cassert hist of
              Inl e \<Rightarrow> Inl e
            | Inr h \<Rightarrow> unit_until cassert unit_max h)
      else Inr hist)"
  by pat_completeness auto
termination
proof (relation "measure (\<lambda>(cassert, unit_max, hist). unat unit_max - unat (unit hist))")
  show "wf (measure (\<lambda>(cassert, unit_max, hist). unat unit_max - unat (unit hist)))"
    by simp
next
  fix cassert unit_max hist h
  assume a: "unit hist < unit_max" "hist_adjust_unit cassert hist = Inr h"
  have "unat (unit h) = Suc (unat (unit hist))"
    using hist_adjust_unit_fields(2) [OF a(2)] unat_inc_4word [OF a(1)] by simp
  moreover have "unat (unit hist) < unat unit_max"
    using a(1) by (simp add: word_less_nat_alt)
  ultimately show "((cassert, unit_max, h), (cassert, unit_max, hist))
          \<in> measure (\<lambda>(cassert, unit_max, hist). unat unit_max - unat (unit hist))"
    by simp
qed

declare sample_until.simps [simp del]

declare unit_until.simps [simp del]

text \<open>
  The test of \<^verbatim>\<open>tinyhist_combine\<close> before the merge: does some bucket-wise sum exceed the
  capacity of its bucket?  (The C loop breaks at the first such bucket.)
\<close>

definition merge_overflows :: "tinyhist_t \<Rightarrow> tinyhist_t \<Rightarrow> bool" where
  "merge_overflows src dst =
     list_ex (\<lambda>i. let cnt = bucket_get src i + bucket_get dst i in cnt > bucket_maxcount i)
       [0..<HISTOGRAM_BUCKETS]"

text \<open>
  \<^verbatim>\<open>tinyhist_combine\<close>.  \<open>arg0\<close> is \<open>None\<close> for an SQL NULL first argument; the second
  argument is never NULL.  The function changes both histograms in place and returns the
  first, so the model returns the pair (returned histogram, final \<open>src\<close>).
\<close>

definition tinyhist_combine ::
  "bool \<Rightarrow> bool \<Rightarrow> tinyhist_t option \<Rightarrow> tinyhist_t \<Rightarrow> error + tinyhist_t \<times> tinyhist_t" where
  "tinyhist_combine cassert agg_context arg0 src =
     (if \<not> agg_context then Inl (Elog ''tinyhist_combine called in non-aggregate context'')
      else (case arg0 of
              None \<Rightarrow> Inr (src, src)
            | Some dst \<Rightarrow>
                (let sample_max = max (sample src) (sample dst)
                 in case sample_until cassert sample_max src of
                      Inl e \<Rightarrow> Inl e
                    | Inr src1 \<Rightarrow>
                 (case sample_until cassert sample_max dst of
                      Inl e \<Rightarrow> Inl e
                    | Inr dst1 \<Rightarrow>
                 (let unit_max = max (unit src1) (unit dst1)
                  in case unit_until cassert unit_max src1 of
                      Inl e \<Rightarrow> Inl e
                    | Inr src2 \<Rightarrow>
                 (case unit_until cassert unit_max dst1 of
                      Inl e \<Rightarrow> Inl e
                    | Inr dst2 \<Rightarrow>
                 (if cassert \<and> sample src2 \<noteq> sample dst2 then Inl AssertFailed
                  else if cassert \<and> unit src2 \<noteq> unit dst2 then Inl AssertFailed
                  else (case (if merge_overflows src2 dst2
                              then (case hist_adjust_sample cassert src2 of
                                      Inl e \<Rightarrow> Inl e
                                    | Inr s \<Rightarrow>
                                        (case hist_adjust_sample cassert dst2 of
                                           Inl e \<Rightarrow> Inl e
                                         | Inr d \<Rightarrow> Inr (s, d)))
                              else Inr (src2, dst2)) of
                          Inl e \<Rightarrow> Inl e
                        | Inr (src3, dst3) \<Rightarrow>
                            (case for_loop
                                    (\<lambda>i d. let cnt = bucket_get src3 i + bucket_get d i
                                           in bucket_set cassert d i cnt)
                                    [0..<HISTOGRAM_BUCKETS] dst3 of
                               Inl e \<Rightarrow> Inl e
                             | Inr dst4 \<Rightarrow> Inr (dst4, src3))))))))))"

section \<open>Text input and output\<close>

text \<open>
  \<^verbatim>\<open>tinyhist_out\<close> prints with the format
  \<^verbatim>\<open>"{%hhu, %hhu, %d, %d, %d, %d, %d, %d, %d, %d, %d, %d, %d, %d, %d, %d, %d, %d}"\<close>.
  \<open>fmt_hhu\<close> and \<open>fmt_d\<close> are the two conversions of \<^verbatim>\<open>printf\<close>: the argument reduced
  to an unsigned char, and a signed int, both in decimal.
\<close>

definition digit_char :: "nat \<Rightarrow> char" where
  "digit_char d = char_of (48 + d)"

fun digits :: "nat \<Rightarrow> string" where
  "digits n = (if n < 10 then [digit_char n] else digits (n div 10) @ [digit_char (n mod 10)])"

definition fmt_d :: "int \<Rightarrow> string" where
  "fmt_d k = (if k < 0 then CHR ''-'' # digits (nat (- k)) else digits (nat k))"

definition fmt_hhu :: "int \<Rightarrow> string" where
  "fmt_hhu k = digits (nat (k mod 256))"

definition tinyhist_out :: "tinyhist_t \<Rightarrow> string" where
  "tinyhist_out hist =
     (let buckets = map (\<lambda>i. bucket_get hist i) [0..<HISTOGRAM_BUCKETS]
      in ''{'' @ fmt_hhu (uint (sample hist)) @ '', '' @ fmt_hhu (uint (unit hist))
           @ concat (map (\<lambda>b. '', '' @ fmt_d b) buckets) @ ''}'')"

text \<open>
  \<^verbatim>\<open>sscanf\<close> on the directives of a format: a literal character, white space, or a
  conversion (\<^verbatim>\<open>%hhu\<close> or \<^verbatim>\<open>%d\<close>).  A conversion skips white space, reads an optional sign
  and at least one digit.  The result is the number of values assigned, or \<open>-1\<close>
  (\<^verbatim>\<open>EOF\<close>) when the input ends before the first conversion, together with the values
  assigned so far.
\<close>

datatype directive = Lit char | Space | Conv_hhu | Conv_d

definition is_space :: "char \<Rightarrow> bool" where
  "is_space c \<longleftrightarrow> c = CHR '' '' \<or> (9 \<le> (of_char c :: nat) \<and> (of_char c :: nat) \<le> 13)"

definition is_digit :: "char \<Rightarrow> bool" where
  "is_digit c \<longleftrightarrow> 48 \<le> (of_char c :: nat) \<and> (of_char c :: nat) \<le> 57"

definition number_of_digits :: "string \<Rightarrow> nat" where
  "number_of_digits ds = foldl (\<lambda>acc c. 10 * acc + (of_char c - 48)) 0 ds"

datatype scan_result = Assigned int string | MatchFail | InputFail

definition scan_int :: "string \<Rightarrow> scan_result" where
  "scan_int s =
     (let s1 = dropWhile is_space s
      in if s1 = [] then InputFail
         else (let neg = (hd s1 = CHR ''-'');
                   s2 = (if hd s1 = CHR ''-'' \<or> hd s1 = CHR ''+'' then tl s1 else s1);
                   ds = takeWhile is_digit s2
               in if ds = [] then MatchFail
                  else Assigned (if neg then - int (number_of_digits ds)
                                 else int (number_of_digits ds))
                         (dropWhile is_digit s2)))"

fun sscanf :: "directive list \<Rightarrow> string \<Rightarrow> int list \<Rightarrow> int \<times> int list" where
  "sscanf [] s vals = (int (length vals), vals)"
| "sscanf (Lit c # fmt) s vals =
     (case s of
        [] \<Rightarrow> (if vals = [] then - 1 else int (length vals), vals)
      | x # t \<Rightarrow> if x = c then sscanf fmt t vals else (int (length vals), vals))"
| "sscanf (Space # fmt) s vals = sscanf fmt (dropWhile is_space s) vals"
| "sscanf (Conv_hhu # fmt) s vals =
     (case scan_int s of
        InputFail \<Rightarrow> (if vals = [] then - 1 else int (length vals), vals)
      | MatchFail \<Rightarrow> (int (length vals), vals)
      | Assigned v t \<Rightarrow> sscanf fmt t (vals @ [v mod 256]))"
| "sscanf (Conv_d # fmt) s vals =
     (case scan_int s of
        InputFail \<Rightarrow> (if vals = [] then - 1 else int (length vals), vals)
      | MatchFail \<Rightarrow> (int (length vals), vals)
      | Assigned v t \<Rightarrow> sscanf fmt t (vals @ [v]))"

definition tinyhist_format :: "directive list" where
  "tinyhist_format =
     [Lit CHR ''{'', Conv_hhu, Lit CHR '','', Space, Conv_hhu]
     @ concat (replicate 16 [Lit CHR '','', Space, Conv_d])
     @ [Lit CHR ''}'']"

text \<open>
  \<^verbatim>\<open>tinyhist_in\<close>: the result \<open>r\<close> of \<^verbatim>\<open>sscanf\<close> is compared with 32.  Past that test the
  two exponents go into the 4-bit fields and the 16 counts into the buckets.
\<close>

definition tinyhist_in :: "bool \<Rightarrow> string \<Rightarrow> error + tinyhist_t" where
  "tinyhist_in cassert str =
     (let (r, vals) = sscanf tinyhist_format str []
      in if r \<noteq> 32 then Inl (Elog ''failed to parse tinyhist value'')
         else (let hist = palloc0_hist\<lparr>sample := word_of_int (vals ! 0),
                                        unit := word_of_int (vals ! 1)\<rparr>
               in for_loop (\<lambda>i h. bucket_set cassert h i (vals ! (2 + i)))
                    [0..<HISTOGRAM_BUCKETS] hist))"

section \<open>Binary send and receive\<close>

text \<open>
  The message buffer is the list of its payload bytes.  \<^verbatim>\<open>pq_sendbyte\<close> appends the low
  byte of its int argument; \<^verbatim>\<open>pq_getmsgbyte\<close> takes the next byte off the message and
  raises an error when none is left.
\<close>

definition pq_sendbyte :: "8 word list \<Rightarrow> int \<Rightarrow> 8 word list" where
  "pq_sendbyte buf byt = buf @ [word_of_int byt]"

definition pq_getmsgbyte :: "8 word list \<Rightarrow> error + int \<times> 8 word list" where
  "pq_getmsgbyte buf = (case buf of [] \<Rightarrow> Inl NoData | b # rest \<Rightarrow> Inr (uint b, rest))"

definition tinyhist_send :: "tinyhist_t \<Rightarrow> 8 word list" where
  "tinyhist_send hist =
     fold (\<lambda>i buf. pq_sendbyte buf (bucket_get hist i)) [0..<HISTOGRAM_BUCKETS]
       (pq_sendbyte [] (uint (sample hist)))"

definition tinyhist_recv :: "bool \<Rightarrow> 8 word list \<Rightarrow> error + tinyhist_t" where
  "tinyhist_recv cassert buf =
     (case pq_getmsgbyte buf of
        Inl e \<Rightarrow> Inl e
      | Inr (b, buf1) \<Rightarrow>
          (case for_loop
                  (\<lambda>i (h, msg). case pq_getmsgbyte msg of
                                   Inl e \<Rightarrow> Inl e
                                 | Inr (c, msg') \<Rightarrow>
                                     (case bucket_set cassert h i c of
                                        Inl e \<Rightarrow> Inl e
                                      | Inr h' \<Rightarrow> Inr (h', msg')))
                  [0..<HISTOGRAM_BUCKETS] (palloc0_hist\<lparr>sample := word_of_int b\<rparr>, buf1) of
             Inl e \<Rightarrow> Inl e
           | Inr (hist, msg) \<Rightarrow> Inr hist))"

section \<open>Example histograms\<close>

text \<open>
  A histogram with sample and unit exponent 0 whose bucket 1 (bits 8 to 16 of the buffer)
  holds 256 and whose other buckets are empty: bit 16 is bit 0 of byte 2.
\<close>

definition hist_b1_256 :: tinyhist_t where
  "hist_b1_256 = \<lparr>sample = 0, unit = 0, data = [0, 0, 1] @ replicate 28 0\<rparr>"

text \<open>The same with 200 in bucket 1 (byte 1 of the buffer).\<close>

definition hist_b1_200 :: tinyhist_t where
  "hist_b1_200 = \<lparr>sample = 0, unit = 0, data = [0, 200] @ replicate 29 0\<rparr>"


section \<open>Bucket boundaries\<close>

text \<open>
  The lower and upper boundary of a bucket as \<^verbatim>\<open>tinyhist_buckets\<close> reports them:
  \<^verbatim>\<open>lower = 0\<close>, or \<^verbatim>\<open>1L << (hist->unit + (call_cntr - 1))\<close> past the first bucket, and
  \<^verbatim>\<open>upper = 1L << (hist->unit + call_cntr)\<close>.
\<close>

definition bucket_lower :: "tinyhist_t \<Rightarrow> nat \<Rightarrow> int" where
  "bucket_lower hist call_cntr =
     (if call_cntr > 0 then push_bit (unat (unit hist) + (call_cntr - 1)) 1 else 0)"

definition bucket_upper :: "tinyhist_t \<Rightarrow> nat \<Rightarrow> int" where
  "bucket_upper hist call_cntr = push_bit (unat (unit hist) + call_cntr) 1"

section \<open>Counting conversions\<close>

text \<open>The number of conversion directives of a format.\<close>

fun conversions :: "directive list \<Rightarrow> nat" where
  "conversions [] = 0"
| "conversions (Lit c # fmt) = conversions fmt"
| "conversions (Space # fmt) = conversions fmt"
| "conversions (Conv_hhu # fmt) = Suc (conversions fmt)"
| "conversions (Conv_d # fmt) = Suc (conversions fmt)"

section \<open>The merge as the specification words it\<close>

text \<open>Running an escalation a given number of times, stopping at the first error.\<close>

primrec escalate_times :: "nat \<Rightarrow> ('s \<Rightarrow> error + 's) \<Rightarrow> 's \<Rightarrow> error + 's" where
  "escalate_times 0 escalate h = Inr h"
| "escalate_times (Suc n) escalate h =
     (case escalate h of Inl e \<Rightarrow> Inl e | Inr h' \<Rightarrow> escalate_times n escalate h')"

text \<open>
  The merge in the words of the specification, to be compared with \<open>tinyhist_combine\<close>.
  Step 1: the target sample exponent is the maximum of the two, and whichever histogram
  has the smaller one is escalated until both equal the target, that is, as many times
  as its exponent is short of it.  Step 2: the same for the unit exponent, after step 1.
  Step 3: when some bucket-wise sum exceeds the capacity of its bucket, one more sample
  escalation of both.  Step 4: the bucket-wise sums go into \<open>dst\<close>.
\<close>

definition merge_spec :: "bool \<Rightarrow> tinyhist_t \<Rightarrow> tinyhist_t \<Rightarrow> error + tinyhist_t \<times> tinyhist_t" where
  "merge_spec cassert dst src =
     (let target_sample = max (unat (sample dst)) (unat (sample src))
      in case escalate_times (target_sample - unat (sample src)) (hist_adjust_sample cassert) src of
           Inl e \<Rightarrow> Inl e
         | Inr src1 \<Rightarrow>
      (case escalate_times (target_sample - unat (sample dst)) (hist_adjust_sample cassert) dst of
           Inl e \<Rightarrow> Inl e
         | Inr dst1 \<Rightarrow>
      (let target_unit = max (unat (unit dst1)) (unat (unit src1))
       in case escalate_times (target_unit - unat (unit src1)) (hist_adjust_unit cassert) src1 of
           Inl e \<Rightarrow> Inl e
         | Inr src2 \<Rightarrow>
      (case escalate_times (target_unit - unat (unit dst1)) (hist_adjust_unit cassert) dst1 of
           Inl e \<Rightarrow> Inl e
         | Inr dst2 \<Rightarrow>
      (case (if merge_overflows src2 dst2
             then (case hist_adjust_sample cassert src2 of
                     Inl e \<Rightarrow> Inl e
                   | Inr s \<Rightarrow>
                       (case hist_adjust_sample cassert dst2 of
                          Inl e \<Rightarrow> Inl e
                        | Inr d \<Rightarrow> Inr (s, d)))
             else Inr (src2, dst2)) of
         Inl e \<Rightarrow> Inl e
       | Inr (src3, dst3) \<Rightarrow>
           (case for_loop
                   (\<lambda>i d. bucket_set cassert d i (bucket_get src3 i + bucket_get d i))
                   [0..<HISTOGRAM_BUCKETS] dst3 of
              Inl e \<Rightarrow> Inl e
            | Inr dst4 \<Rightarrow> Inr (dst4, src3)))))))"

text \<open>Unit exponent 1 and 128 in bucket 0 (byte 0 of the buffer).\<close>

definition hist_b0_128_u1 :: tinyhist_t where
  "hist_b0_128_u1 = \<lparr>sample = 0, unit = 1, data = [128] @ replicate 30 0\<rparr>"

text \<open>Unit exponent 1 and 1 in bucket 15 (bits 225 to 247: bit 225 is bit 1 of byte 28).\<close>

definition hist_u1_b15_1 :: tinyhist_t where
  "hist_u1_b15_1 = \<lparr>sample = 0, unit = 1, data = replicate 28 0 @ [2, 0, 0]\<rparr>"

section \<open>Reachable histograms\<close>

text \<open>
  The histograms that accumulation and merging produce from nothing: the result of
  \<^verbatim>\<open>tinyhist_accum\<close> on no state (which allocates the zero histogram) or on a reachable
  state, and the histogram \<^verbatim>\<open>tinyhist_combine\<close> returns for two reachable ones, for any
  value, any random draw and either build.
\<close>

inductive reachable :: "tinyhist_t \<Rightarrow> bool" where
  first: "tinyhist_accum cassert True None (Some value) r = Some (Inr (Some h)) \<Longrightarrow> reachable h"
| accum: "reachable state \<Longrightarrow>
          tinyhist_accum cassert True (Some state) (Some value) r = Some (Inr (Some h)) \<Longrightarrow>
          reachable h"
| combine: "reachable dst \<Longrightarrow> reachable src \<Longrightarrow>
            tinyhist_combine cassert True (Some dst) src = Inr (h, src') \<Longrightarrow> reachable h"

section \<open>The total count\<close>

text \<open>The sum of the 16 decoded buckets, as \<^verbatim>\<open>tinyhist_info\<close> computes it.\<close>

definition total_count :: "tinyhist_t \<Rightarrow> int" where
  "total_count hist = (\<Sum>i<16. bucket_get hist i)"

section \<open>Effect of the operations on the buckets\<close>

lemma bucket_set_store:
  assumes "b < 16" "cassert \<longrightarrow> count < 2 ^ (bucket_bits ! b)"
  shows "bucket_set cassert hist b count = Inr (bucket_store hist b count)"
  using assms by (auto simp: bucket_set_def HISTOGRAM_BUCKETS_def)

lemma bucket_get_store:
  assumes "hist_ok hist" "b < 16" "j < 16"
  shows "bucket_get (bucket_store hist b count) j
           = (if j = b then take_bit (bucket_bits ! b) count else bucket_get hist j)"
  using assms by (simp add: bucket_get_store_same bucket_get_store_other)

lemma bucket_set_get:
  assumes "hist_ok hist" "b < 16" "0 \<le> count" "count < 2 ^ (bucket_bits ! b)"
  shows "bucket_set cassert hist b count = Inr (bucket_store hist b count)"
    and "hist_ok (bucket_store hist b count)"
    and "j < 16 \<Longrightarrow> bucket_get (bucket_store hist b count) j = (if j = b then count else bucket_get hist j)"
proof -
  show "bucket_set cassert hist b count = Inr (bucket_store hist b count)"
    using assms by (simp add: bucket_set_store)
  show "hist_ok (bucket_store hist b count)"
    using assms by (simp add: bucket_store_ok)
  have "take_bit (bucket_bits ! b) count = count"
    using assms by (simp add: take_bit_int_eq_self)
  then show "j < 16 \<Longrightarrow> bucket_get (bucket_store hist b count) j = (if j = b then count else bucket_get hist j)"
    using assms by (simp add: bucket_get_store)
qed

lemma hist_adjust_sample_loop:
  assumes "hist_ok hist" "k \<le> 16"
  shows "\<exists>h. for_loop (\<lambda>i h. let cnt = bucket_get h i in bucket_set cassert h i (cnt div 2))
               [0..<k] hist = Inr h
             \<and> hist_ok h
             \<and> (\<forall>j<16. bucket_get h j = (if j < k then bucket_get hist j div 2 else bucket_get hist j))"
  using assms(2)
proof (induction k)
  case 0
  then show ?case using assms(1) by simp
next
  case (Suc k)
  then obtain h where h: "for_loop (\<lambda>i h. let cnt = bucket_get h i in bucket_set cassert h i (cnt div 2))
               [0..<k] hist = Inr h" "hist_ok h"
      "\<forall>j<16. bucket_get h j = (if j < k then bucket_get hist j div 2 else bucket_get hist j)"
    by auto
  let ?c = "bucket_get h k div 2"
  have k: "k < 16" using Suc.prems by simp
  have c: "0 \<le> ?c" "?c < 2 ^ (bucket_bits ! k)"
    using bucket_get_nonneg [of h k] bucket_get_less [of h k] by auto
  note st = bucket_set_get [OF h(2) k c]
  have "for_loop (\<lambda>i h. let cnt = bucket_get h i in bucket_set cassert h i (cnt div 2))
               [0..<Suc k] hist = Inr (bucket_store h k ?c)"
    using h(1) st(1) by (simp add: for_loop_append)
  moreover have "\<forall>j<16. bucket_get (bucket_store h k ?c) j
                   = (if j < Suc k then bucket_get hist j div 2 else bucket_get hist j)"
    using st(3) h(3) k by (auto simp: less_Suc_eq)
  ultimately show ?case using st(2) by blast
qed

lemma hist_adjust_sample_buckets:
  assumes "hist_ok hist"
  shows "\<exists>h. hist_adjust_sample cassert hist = Inr h \<and> hist_ok h
           \<and> sample h = sample hist + 1 \<and> unit h = unit hist
           \<and> (\<forall>j<16. bucket_get h j = bucket_get hist j div 2)"
proof -
  obtain h0 where h0: "for_loop (\<lambda>i h. let cnt = bucket_get h i in bucket_set cassert h i (cnt div 2))
               [0..<16] hist = Inr h0" "hist_ok h0"
      "\<forall>j<16. bucket_get h0 j = bucket_get hist j div 2"
    using hist_adjust_sample_loop [OF assms, of 16 cassert] by auto
  let ?h = "h0\<lparr>sample := sample h0 + 1\<rparr>"
  have r: "hist_adjust_sample cassert hist = Inr ?h"
    using h0(1) by (simp add: hist_adjust_sample_def HISTOGRAM_BUCKETS_def)
  have "bucket_get ?h j = bucket_get h0 j" for j
    by (simp add: bucket_get_def)
  moreover have "hist_ok ?h" using h0(2) by (simp add: hist_ok_def)
  ultimately show ?thesis
    using r h0(3) hist_adjust_sample_fields [OF r] by auto
qed

lemma palloc0_ok: "hist_ok palloc0_hist"
  by (simp add: hist_ok_def palloc0_hist_def)

lemma bucket_get_more_update [simp]:
  "bucket_get (hist\<lparr>sample := s\<rparr>) j = bucket_get hist j"
  "bucket_get (hist\<lparr>unit := u\<rparr>) j = bucket_get hist j"
  by (simp_all add: bucket_get_def)

lemma hist_ok_update [simp]:
  "hist_ok (hist\<lparr>sample := s\<rparr>) = hist_ok hist"
  "hist_ok (hist\<lparr>unit := u\<rparr>) = hist_ok hist"
  by (simp_all add: hist_ok_def)

lemma shift_loop:
  assumes "hist_ok h1" "1 \<le> k" "k \<le> 15"
    and "cassert \<longrightarrow> (\<forall>i. 1 \<le> i \<and> i < k \<longrightarrow> bucket_get h1 (i + 1) < 2 ^ (bucket_bits ! i))"
  shows "\<exists>h. for_loop (\<lambda>i h. bucket_set cassert h i (bucket_get h (i + 1))) [1..<k] h1 = Inr h
             \<and> hist_ok h
             \<and> (\<forall>j<16. bucket_get h j = (if 1 \<le> j \<and> j < k
                                          then take_bit (bucket_bits ! j) (bucket_get h1 (j + 1))
                                          else bucket_get h1 j))"
  using assms(2-)
proof (induction k)
  case 0
  then show ?case by simp
next
  case (Suc k)
  show ?case
  proof (cases "k = 0")
    case True
    then show ?thesis using assms(1) by simp
  next
    case False
    then have k: "1 \<le> k" "k \<le> 15" "k < 16" "k + 1 < 16" using Suc.prems by simp_all
    have "cassert \<longrightarrow> (\<forall>i. 1 \<le> i \<and> i < k \<longrightarrow> bucket_get h1 (i + 1) < 2 ^ (bucket_bits ! i))"
      using Suc.prems(3) by simp
    then obtain h where h:
      "for_loop (\<lambda>i h. bucket_set cassert h i (bucket_get h (i + 1))) [1..<k] h1 = Inr h"
      "hist_ok h"
      "\<forall>j<16. bucket_get h j = (if 1 \<le> j \<and> j < k
                                 then take_bit (bucket_bits ! j) (bucket_get h1 (j + 1))
                                 else bucket_get h1 j)"
      using Suc.IH k by blast
    have next_old: "bucket_get h (k + 1) = bucket_get h1 (k + 1)"
      using h(3) k by simp
    have "cassert \<longrightarrow> bucket_get h (k + 1) < 2 ^ (bucket_bits ! k)"
      using Suc.prems(3) k next_old by simp
    then have st: "bucket_set cassert h k (bucket_get h (k + 1))
                     = Inr (bucket_store h k (bucket_get h (k + 1)))"
      using k by (intro bucket_set_store) simp_all
    have "[1..<Suc k] = [1..<k] @ [k]"
      using k by simp
    then have "for_loop (\<lambda>i h. bucket_set cassert h i (bucket_get h (i + 1))) [1..<Suc k] h1
                 = Inr (bucket_store h k (bucket_get h (k + 1)))"
      using h(1) st by (simp add: for_loop_append)
    moreover have "hist_ok (bucket_store h k (bucket_get h (k + 1)))"
      using h(2) by (simp add: bucket_store_ok)
    moreover have "\<forall>j<16. bucket_get (bucket_store h k (bucket_get h (k + 1))) j
                     = (if 1 \<le> j \<and> j < Suc k
                        then take_bit (bucket_bits ! j) (bucket_get h1 (j + 1))
                        else bucket_get h1 j)"
      using h(2,3) k next_old by (auto simp: bucket_get_store less_Suc_eq)
    ultimately show ?thesis by blast
  qed
qed

lemma hist_adjust_unit_buckets:
  assumes "hist_ok hist"
    and "cassert \<longrightarrow> bucket_get hist 0 + bucket_get hist 1 < 2 ^ 8
           \<and> (\<forall>i. 1 \<le> i \<and> i < 15 \<longrightarrow> bucket_get hist (i + 1) < 2 ^ (bucket_bits ! i))"
  shows "\<exists>h. hist_adjust_unit cassert hist = Inr h \<and> hist_ok h
           \<and> sample h = sample hist \<and> unit h = unit hist + 1
           \<and> bucket_get h 0 = take_bit 8 (bucket_get hist 0 + bucket_get hist 1)
           \<and> (\<forall>i. 1 \<le> i \<and> i < 15 \<longrightarrow>
                  bucket_get h i = take_bit (bucket_bits ! i) (bucket_get hist (i + 1)))
           \<and> bucket_get h 15 = 0"
proof -
  let ?c = "bucket_get hist 0 + bucket_get hist 1"
  let ?h1 = "bucket_store hist 0 ?c"
  have bits0: "bucket_bits ! 0 = 8" by (simp add: bucket_bits_def)
  have s1: "bucket_set cassert hist 0 ?c = Inr ?h1"
    using assms(2) by (intro bucket_set_store) (simp_all add: bits0)
  have ok1: "hist_ok ?h1" using assms(1) by (simp add: bucket_store_ok)
  have g1: "\<forall>j<16. bucket_get ?h1 j = (if j = 0 then take_bit 8 ?c else bucket_get hist j)"
    using assms(1) by (simp add: bucket_get_store bits0)
  have "cassert \<longrightarrow> (\<forall>i. 1 \<le> i \<and> i < 15 \<longrightarrow> bucket_get ?h1 (i + 1) < 2 ^ (bucket_bits ! i))"
    using assms(2) g1 by simp
  then obtain h2 where h2:
    "for_loop (\<lambda>i h. bucket_set cassert h i (bucket_get h (i + 1))) [1..<15] ?h1 = Inr h2"
    "hist_ok h2"
    "\<forall>j<16. bucket_get h2 j = (if 1 \<le> j \<and> j < 15
                                then take_bit (bucket_bits ! j) (bucket_get ?h1 (j + 1))
                                else bucket_get ?h1 j)"
    using shift_loop [OF ok1, of 15 cassert] by auto
  let ?h3 = "bucket_store h2 15 0"
  have s3: "bucket_set cassert h2 15 0 = Inr ?h3"
    by (intro bucket_set_store) simp_all
  have ok3: "hist_ok ?h3" using h2(2) by (simp add: bucket_store_ok)
  have g3: "\<forall>j<16. bucket_get ?h3 j = (if j = 15 then 0 else bucket_get h2 j)"
    using h2(2) by (simp add: bucket_get_store)
  let ?h = "?h3\<lparr>unit := unit ?h3 + 1\<rparr>"
  have r: "hist_adjust_unit cassert hist = Inr ?h"
    using s1 h2(1) s3 by (simp add: hist_adjust_unit_def HISTOGRAM_BUCKETS_def)
  have "bucket_get ?h 0 = take_bit 8 ?c"
    using g3 h2(3) g1 by simp
  moreover have "\<forall>i. 1 \<le> i \<and> i < 15 \<longrightarrow>
                  bucket_get ?h i = take_bit (bucket_bits ! i) (bucket_get hist (i + 1))"
    using g3 h2(3) g1 by simp
  moreover have "bucket_get ?h 15 = 0"
    using g3 by simp
  moreover have "hist_ok ?h" using ok3 by simp
  ultimately show ?thesis
    using r hist_adjust_unit_fields [OF r] by blast
qed

section \<open>The layout tiles the buffer\<close>

lemma bucket_layout_cover:
  assumes "n < 16" "k < bucket_offset ! n + bucket_bits ! n"
  shows "\<exists>b\<le>n. bucket_offset ! b \<le> k \<and> k < bucket_offset ! b + bucket_bits ! b"
  using assms
proof (induction n)
  case 0
  then show ?case by (simp add: bucket_offset_def)
next
  case (Suc n)
  show ?case
  proof (cases "k < bucket_offset ! n + bucket_bits ! n")
    case True
    then obtain b where "b \<le> n" "bucket_offset ! b \<le> k \<and> k < bucket_offset ! b + bucket_bits ! b"
      using Suc by auto
    then show ?thesis by (intro exI [of _ b]) simp
  next
    case False
    then have "bucket_offset ! Suc n \<le> k"
      using bucket_layout(3) [of n] Suc.prems by simp
    then show ?thesis using Suc.prems by (intro exI [of _ "Suc n"]) simp
  qed
qed

lemma bucket_layout_tiles:
  assumes "k < 248"
  shows "\<exists>!b. b < 16 \<and> bucket_offset ! b \<le> k \<and> k < bucket_offset ! b + bucket_bits ! b"
proof -
  have "bucket_offset ! 15 + bucket_bits ! 15 = 248"
    by (simp add: bucket_offset_def bucket_bits_def)
  then obtain b where b: "b \<le> 15" "bucket_offset ! b \<le> k" "k < bucket_offset ! b + bucket_bits ! b"
    using bucket_layout_cover [of 15 k] assms by auto
  have "c = b" if c: "c < 16" "bucket_offset ! c \<le> k" "k < bucket_offset ! c + bucket_bits ! c" for c
  proof (rule ccontr)
    assume "c \<noteq> b"
    then consider "c < b" | "b < c" by linarith
    then show False
    proof cases
      case 1
      then show ?thesis using bucket_offset_mono [of c b] b c by simp
    next
      case 2
      then show ?thesis using bucket_offset_mono [of b c] b c by simp
    qed
  qed
  then show ?thesis using b by (intro ex1I [of _ b]) auto
qed

lemma bitat_bucket:
  assumes "hist_ok hist" "k < 248"
  shows "\<exists>b j. b < 16 \<and> j < bucket_bits ! b \<and> k = bucket_offset ! b + j
           \<and> bitat (data hist) k = bit (bucket_get hist b) j"
proof -
  obtain b where b: "b < 16" "bucket_offset ! b \<le> k" "k < bucket_offset ! b + bucket_bits ! b"
    using bucket_layout_tiles [OF assms(2)] by blast
  let ?j = "k - bucket_offset ! b"
  have "?j < bucket_bits ! b" "k = bucket_offset ! b + ?j"
    using b by simp_all
  moreover from this have "bitat (data hist) k = bit (bucket_get hist b) ?j"
    by (simp add: bucket_get_bit)
  ultimately show ?thesis using b(1) by blast
qed

lemma hist_eqI:
  assumes "hist_ok h" "hist_ok h'" "sample h = sample h'" "unit h = unit h'"
    and "\<And>j. j < 16 \<Longrightarrow> bucket_get h j = bucket_get h' j"
  shows "h = h'"
proof -
  have bits: "bitat (data h) k = bitat (data h') k" if k: "k < 248" for k
  proof -
    obtain b j where bj: "b < 16" "j < bucket_bits ! b" "k = bucket_offset ! b + j"
      "bitat (data h) k = bit (bucket_get h b) j"
      using bitat_bucket [OF assms(1) k] by blast
    then have "bitat (data h') k = bit (bucket_get h' b) j"
      by (simp add: bucket_get_bit)
    then show ?thesis using bj assms(5) by simp
  qed
  have "data h = data h'"
  proof (rule nth_equalityI)
    show "length (data h) = length (data h')"
      using assms(1,2) by (simp add: hist_ok_def)
  next
    fix m assume m: "m < length (data h)"
    show "data h ! m = data h' ! m"
    proof (rule bit_eqI)
      fix n assume "possible_bit TYPE(8 word) n"
      then have n: "n < 8" by (simp add: possible_bit_word)
      then have "8 * m + n < 248" using m assms(1) by (simp add: hist_ok_def)
      from bits [OF this] show "bit (data h ! m) n \<longleftrightarrow> bit (data h' ! m) n"
        using n by (simp add: bitat_def)
    qed
  qed
  then show ?thesis using assms(3,4) by simp
qed

lemma bucket_get_palloc0:
  assumes "j < 16"
  shows "bucket_get palloc0_hist j = 0"
proof (rule bit_eqI)
  fix n
  have "\<not> bitat (replicate 31 0) (bucket_offset ! j + n)" if "n < bucket_bits ! j"
  proof -
    have "(bucket_offset ! j + n) div 8 < 31"
      using bucket_layout(2) [OF assms] that by simp
    then show ?thesis by (simp add: bitat_def)
  qed
  then show "bit (bucket_get palloc0_hist j) n \<longleftrightarrow> bit (0::int) n"
    by (auto simp: bucket_get_bit palloc0_hist_def)
qed

section \<open>The example histograms, read back\<close>

lemma hist_b1_256_ok: "hist_ok hist_b1_256"
  by (simp add: hist_ok_def hist_b1_256_def)

lemma hist_b1_256_buckets:
  "map (bucket_get hist_b1_256) [0..<16] = [0, 256, 0, 0, 0, 0, 0, 0, 0, 0, 0, 0, 0, 0, 0, 0]"
  by code_simp

lemma upt_16: "[0..<16] = [0, 1, 2, 3, 4, 5, 6, 7, 8, 9, 10, 11, 12, 13, 14, 15]"
  by code_simp

lemma hist_b1_256_get:
  assumes "j < 16"
  shows "bucket_get hist_b1_256 j = (if j = 1 then 256 else 0)"
proof -
  have "map (bucket_get hist_b1_256) [0..<16] ! j
          = [0, 256, 0, 0, 0, 0, 0, 0, 0, 0, 0, 0, 0, 0, 0, 0] ! j"
    by (simp only: hist_b1_256_buckets)
  then have "bucket_get hist_b1_256 j = [0, 256, 0, 0, 0, 0, 0, 0, 0, 0, 0, 0, 0, 0, 0, 0] ! j"
    using assms by simp
  moreover have "list_all (\<lambda>j. [0, 256, 0, 0, 0, 0, 0, 0, 0, 0, 0, 0, 0, 0, 0, 0::int] ! j = (if j = 1 then 256 else 0)) [0..<16]"
    unfolding upt_16 by simp
  ultimately show ?thesis using assms by (simp add: list_all_iff)
qed




section \<open>The wire format\<close>

lemma send_loop:
  "fold (\<lambda>i buf. pq_sendbyte buf (f i)) xs buf0 = buf0 @ map (\<lambda>i. word_of_int (f i)) xs"
  by (induction xs arbitrary: buf0) (simp_all add: pq_sendbyte_def)

lemma tinyhist_send_bytes:
  "tinyhist_send hist
     = word_of_int (uint (sample hist)) # map (\<lambda>i. word_of_int (bucket_get hist i)) [0..<16]"
  unfolding tinyhist_send_def send_loop HISTOGRAM_BUCKETS_def
  by (simp add: pq_sendbyte_def)

lemma bucket_bits_ge8:
  assumes "i < 16"
  shows "8 \<le> bucket_bits ! i"
  using bucket_layout(1) [OF assms] by simp

lemma recv_loop:
  assumes "set xs \<subseteq> {0..<16}" "length xs \<le> length msg"
  shows "\<exists>h'. for_loop
                (\<lambda>i (h, msg). case pq_getmsgbyte msg of
                                 Inl e \<Rightarrow> Inl e
                               | Inr (c, msg') \<Rightarrow>
                                   (case bucket_set cassert h i c of
                                      Inl e \<Rightarrow> Inl e
                                    | Inr h' \<Rightarrow> Inr (h', msg')))
                xs (h, msg) = Inr (h', drop (length xs) msg)
              \<and> unit h' = unit h"
  using assms
proof (induction xs arbitrary: h msg)
  case Nil
  then show ?case by simp
next
  case (Cons i xs)
  then obtain b rest where msg: "msg = b # rest"
    by (cases msg) auto
  have i: "i < 16" using Cons.prems(1) by simp
  have "uint b < 2 ^ 8"
    using uint_bounded [of b] by simp
  also have "(2::int) ^ 8 \<le> 2 ^ (bucket_bits ! i)"
    using bucket_bits_ge8 [OF i] by (intro power_increasing) simp_all
  finally have st: "bucket_set cassert h i (uint b) = Inr (bucket_store h i (uint b))"
    using i by (intro bucket_set_store) simp_all
  obtain h' where h': "for_loop
                (\<lambda>i (h, msg). case pq_getmsgbyte msg of
                                 Inl e \<Rightarrow> Inl e
                               | Inr (c, msg') \<Rightarrow>
                                   (case bucket_set cassert h i c of
                                      Inl e \<Rightarrow> Inl e
                                    | Inr h' \<Rightarrow> Inr (h', msg')))
                xs (bucket_store h i (uint b), rest) = Inr (h', drop (length xs) rest)"
      "unit h' = unit (bucket_store h i (uint b))"
    using Cons.IH [of rest "bucket_store h i (uint b)"] Cons.prems msg by auto
  show ?case
    using h' st msg by (simp add: pq_getmsgbyte_def bucket_store_fields)
qed

section \<open>The bucket index loop\<close>

lemma bucket_index_loop_finite:
  assumes "0 < u" "x \<le> real_of_int (2 ^ 15 * u)" "idx \<le> 15"
    and "\<forall>j<idx. real_of_int (2 ^ j * u) < x"
  shows "\<exists>i. bucket_index_loop u (Finite x) idx = Inr i \<and> i \<le> 15
           \<and> x \<le> real_of_int (2 ^ i * u) \<and> (\<forall>j<i. real_of_int (2 ^ j * u) < x)"
  using assms
proof (induction u "Finite x" idx rule: bucket_index_loop.induct)
  case (1 unit64 idx)
  show ?case
  proof (cases "real_of_int (2 ^ idx * unit64) < x")
    case True
    then have "idx \<noteq> 15" using "1.prems"(2) by auto
    then have idx: "idx + 1 \<le> 15" "\<not> 31 \<le> idx" using "1.prems"(3) by simp_all
    have inv: "\<forall>j<idx + 1. real_of_int (2 ^ j * unit64) < x"
      using "1.prems"(4) True by (auto simp: less_Suc_eq)
    have "\<exists>i. bucket_index_loop unit64 (Finite x) (idx + 1) = Inr i \<and> i \<le> 15
           \<and> x \<le> real_of_int (2 ^ i * unit64) \<and> (\<forall>j<i. real_of_int (2 ^ j * unit64) < x)"
      using "1.hyps" [OF idx(2) _ "1.prems"(1,2) idx(1) inv] True by simp
    then show ?thesis
      using idx(2) True by (subst bucket_index_loop.simps) simp
  next
    case False
    then show ?thesis
      using "1.prems" by (subst bucket_index_loop.simps) auto
  qed
qed

lemma hist_maxvalue_eq: "hist_maxvalue hist = 2 ^ 15 * 2 ^ unat (unit hist)"
  by (simp add: hist_maxvalue_def HISTOGRAM_BUCKETS_def)

lemma bucket_bounds:
  "bucket_upper hist i = 2 ^ i * 2 ^ unat (unit hist)"
  "bucket_lower hist i = (if i = 0 then 0 else 2 ^ (i - 1) * 2 ^ unat (unit hist))"
  by (cases i; simp add: bucket_upper_def bucket_lower_def power_add mult.commute)+

section \<open>The text format\<close>

lemma sscanf_count:
  "fst (sscanf fmt s vals) \<le> int (length vals) + int (conversions fmt)"
  by (induction fmt s vals rule: sscanf.induct)
     (auto split: list.splits scan_result.splits)

lemma tinyhist_format_conversions: "conversions tinyhist_format = 18"
  by (simp add: tinyhist_format_def numeral_eq_Suc)

lemma tinyhist_in_fails:
  "tinyhist_in cassert str = Inl (Elog ''failed to parse tinyhist value'')"
proof -
  have "fst (sscanf tinyhist_format str []) \<le> 18"
    using sscanf_count [of tinyhist_format str "[]"]
    by (simp add: tinyhist_format_conversions)
  then have "fst (sscanf tinyhist_format str []) \<noteq> 32" by simp
  then show ?thesis
    by (auto simp: tinyhist_in_def split: prod.splits)
qed

lemma digits_0: "digits 0 = ''0''"
  by code_simp

lemma tinyhist_out_palloc0:
  "tinyhist_out palloc0_hist = ''{0, 0, 0, 0, 0, 0, 0, 0, 0, 0, 0, 0, 0, 0, 0, 0, 0, 0}''"
proof -
  have "map (bucket_get palloc0_hist) [0..<16] = map (\<lambda>i. 0) [0..<16]"
    by (rule map_cong) (simp_all add: bucket_get_palloc0)
  then have "map (\<lambda>i. bucket_get palloc0_hist i) [0..<HISTOGRAM_BUCKETS] = replicate 16 0"
    by (simp add: HISTOGRAM_BUCKETS_def map_replicate_const)
  then show ?thesis
    unfolding tinyhist_out_def Let_def
    by (simp add: fmt_d_def fmt_hhu_def digits_0 palloc0_hist_def numeral_eq_Suc del: digits.simps)
qed

lemma sscanf_zero_text:
  "sscanf tinyhist_format ''{0, 0, 0, 0, 0, 0, 0, 0, 0, 0, 0, 0, 0, 0, 0, 0, 0, 0}'' []
     = (18, [0, 0, 0, 0, 0, 0, 0, 0, 0, 0, 0, 0, 0, 0, 0, 0, 0, 0])"
  by code_simp

section \<open>The equalisation loops\<close>

lemma word4_le_unat:
  fixes a b :: "4 word"
  shows "unat (max a b) = max (unat a) (unat b)"
  by (simp add: max_def word_le_nat_alt)

lemma sample_until_times:
  assumes "sample hist \<le> sample_max"
  shows "sample_until cassert sample_max hist
           = escalate_times (unat sample_max - unat (sample hist)) (hist_adjust_sample cassert) hist"
  using assms
proof (induction cassert sample_max hist rule: sample_until.induct)
  case (1 cassert sample_max hist)
  show ?case
  proof (cases "sample hist < sample_max")
    case True
    then have lt: "unat (sample hist) < unat sample_max"
      by (simp add: word_less_nat_alt)
    then have n: "unat sample_max - unat (sample hist) = Suc (unat sample_max - Suc (unat (sample hist)))"
      by simp
    show ?thesis
    proof (cases "hist_adjust_sample cassert hist")
      case (Inl e)
      then show ?thesis using True by (subst sample_until.simps) (simp add: n)
    next
      case (Inr h)
      have s: "unat (sample h) = Suc (unat (sample hist))"
        using hist_adjust_sample_fields(1) [OF Inr] unat_inc_4word [OF True] by simp
      then have "sample h \<le> sample_max"
        using lt by (simp add: word_le_nat_alt)
      from "1.IH" [OF True Inr this] show ?thesis
        using True Inr s by (subst sample_until.simps) (simp add: n)
    qed
  next
    case False
    then have "sample hist = sample_max"
      using "1.prems" by (simp add: order.order_iff_strict)
    then show ?thesis by (subst sample_until.simps) simp
  qed
qed

lemma unit_until_times:
  assumes "unit hist \<le> unit_max"
  shows "unit_until cassert unit_max hist
           = escalate_times (unat unit_max - unat (unit hist)) (hist_adjust_unit cassert) hist"
  using assms
proof (induction cassert unit_max hist rule: unit_until.induct)
  case (1 cassert unit_max hist)
  show ?case
  proof (cases "unit hist < unit_max")
    case True
    then have lt: "unat (unit hist) < unat unit_max"
      by (simp add: word_less_nat_alt)
    then have n: "unat unit_max - unat (unit hist) = Suc (unat unit_max - Suc (unat (unit hist)))"
      by simp
    show ?thesis
    proof (cases "hist_adjust_unit cassert hist")
      case (Inl e)
      then show ?thesis using True by (subst unit_until.simps) (simp add: n)
    next
      case (Inr h)
      have s: "unat (unit h) = Suc (unat (unit hist))"
        using hist_adjust_unit_fields(2) [OF Inr] unat_inc_4word [OF True] by simp
      then have "unit h \<le> unit_max"
        using lt by (simp add: word_le_nat_alt)
      from "1.IH" [OF True Inr this] show ?thesis
        using True Inr s by (subst unit_until.simps) (simp add: n)
    qed
  next
    case False
    then have "unit hist = unit_max"
      using "1.prems" by (simp add: order.order_iff_strict)
    then show ?thesis by (subst unit_until.simps) simp
  qed
qed

lemma sample_until_fields:
  assumes "sample_until cassert sample_max hist = Inr h" "sample hist \<le> sample_max"
  shows "sample h = sample_max \<and> unit h = unit hist \<and> length (data h) = length (data hist)"
  using assms
proof (induction cassert sample_max hist rule: sample_until.induct)
  case (1 cassert sample_max hist)
  show ?case
  proof (cases "sample hist < sample_max")
    case True
    then obtain h1 where h1: "hist_adjust_sample cassert hist = Inr h1"
        "sample_until cassert sample_max h1 = Inr h"
      using "1.prems"(1) by (subst (asm) sample_until.simps) (simp split: sum.splits)
    have "unat (sample h1) = Suc (unat (sample hist))"
      using hist_adjust_sample_fields(1) [OF h1(1)] unat_inc_4word [OF True] by simp
    then have "sample h1 \<le> sample_max"
      using True by (simp add: word_le_nat_alt word_less_nat_alt)
    from "1.IH" [OF True h1(1) h1(2) this] show ?thesis
      using hist_adjust_sample_fields [OF h1(1)] by simp
  next
    case False
    then have "sample_until cassert sample_max hist = Inr hist"
      by (subst sample_until.simps) simp
    then have "h = hist" using "1.prems"(1) by simp
    moreover have "sample hist = sample_max"
      using False "1.prems"(2) by (simp add: order.order_iff_strict)
    ultimately show ?thesis by simp
  qed
qed

lemma unit_until_fields:
  assumes "unit_until cassert unit_max hist = Inr h" "unit hist \<le> unit_max"
  shows "unit h = unit_max \<and> sample h = sample hist \<and> length (data h) = length (data hist)"
  using assms
proof (induction cassert unit_max hist rule: unit_until.induct)
  case (1 cassert unit_max hist)
  show ?case
  proof (cases "unit hist < unit_max")
    case True
    then obtain h1 where h1: "hist_adjust_unit cassert hist = Inr h1"
        "unit_until cassert unit_max h1 = Inr h"
      using "1.prems"(1) by (subst (asm) unit_until.simps) (simp split: sum.splits)
    have "unat (unit h1) = Suc (unat (unit hist))"
      using hist_adjust_unit_fields(2) [OF h1(1)] unat_inc_4word [OF True] by simp
    then have "unit h1 \<le> unit_max"
      using True by (simp add: word_le_nat_alt word_less_nat_alt)
    from "1.IH" [OF True h1(1) h1(2) this] show ?thesis
      using hist_adjust_unit_fields [OF h1(1)] by simp
  next
    case False
    then have "unit_until cassert unit_max hist = Inr hist"
      by (subst unit_until.simps) simp
    then have "h = hist" using "1.prems"(1) by simp
    moreover have "unit hist = unit_max"
      using False "1.prems"(2) by (simp add: order.order_iff_strict)
    ultimately show ?thesis by simp
  qed
qed

lemma for_loop_total:
  assumes "\<And>x s. x \<in> set xs \<Longrightarrow> \<exists>s'. body x s = Inr s'"
  shows "\<exists>s'. for_loop body xs s = Inr s'"
  using assms
proof (induction xs arbitrary: s)
  case Nil
  then show ?case by simp
next
  case (Cons x xs)
  obtain s1 where s1: "body x s = Inr s1"
    using Cons.prems [of x s] by auto
  have "\<exists>s'. for_loop body xs s1 = Inr s'"
    using Cons.IH [of s1] Cons.prems by simp
  then show ?case using s1 by simp
qed

lemma hist_adjust_sample_total: "\<exists>h. hist_adjust_sample cassert hist = Inr h"
proof -
  have "\<exists>s'. (let cnt = bucket_get s x in bucket_set cassert s x (cnt div 2)) = Inr s'"
    if "x \<in> set [0..<HISTOGRAM_BUCKETS]" for x s
  proof -
    have x: "x < 16" using that by (simp add: HISTOGRAM_BUCKETS_def)
    have "bucket_get s x div 2 \<le> bucket_get s x"
      using bucket_get_nonneg [of s x] by simp
    then have "bucket_get s x div 2 < 2 ^ (bucket_bits ! x)"
      using bucket_get_less [of s x] by linarith
    then show ?thesis using x by (simp add: bucket_set_store)
  qed
  then obtain h where "for_loop (\<lambda>i h. let cnt = bucket_get h i in bucket_set cassert h i (cnt div 2))
             [0..<HISTOGRAM_BUCKETS] hist = Inr h"
    using for_loop_total [of "[0..<HISTOGRAM_BUCKETS]"
        "\<lambda>i h. let cnt = bucket_get h i in bucket_set cassert h i (cnt div 2)" hist]
    by blast
  then show ?thesis by (simp add: hist_adjust_sample_def)
qed

lemma hist_adjust_unit_production: "\<exists>h. hist_adjust_unit False hist = Inr h"
proof -
  obtain h1 where h1: "bucket_set False hist 0 (bucket_get hist 0 + bucket_get hist 1) = Inr h1"
    by (simp add: bucket_set_production)
  obtain h2 where h2: "for_loop (\<lambda>i h. bucket_set False h i (bucket_get h (i + 1)))
                  [1..<HISTOGRAM_BUCKETS - 1] h1 = Inr h2"
    using for_loop_total [of "[1..<HISTOGRAM_BUCKETS - 1]"
        "\<lambda>i h. bucket_set False h i (bucket_get h (i + 1))" h1]
    by (auto simp: bucket_set_production)
  obtain h3 where h3: "bucket_set False h2 (HISTOGRAM_BUCKETS - 1) 0 = Inr h3"
    by (simp add: bucket_set_production)
  show ?thesis
    using h1 h2 h3 by (simp add: hist_adjust_unit_def)
qed

lemma sample_until_total: "\<exists>h. sample_until cassert sample_max hist = Inr h"
proof (induction cassert sample_max hist rule: sample_until.induct)
  case (1 cassert sample_max hist)
  show ?case
  proof (cases "sample hist < sample_max")
    case True
    obtain h1 where h1: "hist_adjust_sample cassert hist = Inr h1"
      using hist_adjust_sample_total by blast
    from "1.IH" [OF True h1] show ?thesis
      using True h1 by (subst sample_until.simps) simp
  next
    case False
    then show ?thesis by (subst sample_until.simps) simp
  qed
qed

lemma unit_until_production: "\<exists>h. unit_until False unit_max hist = Inr h"
proof (induction "False" unit_max hist rule: unit_until.induct)
  case (1 unit_max hist)
  show ?case
  proof (cases "unit hist < unit_max")
    case True
    obtain h1 where h1: "hist_adjust_unit False hist = Inr h1"
      using hist_adjust_unit_production by blast
    from "1.hyps" [OF True h1] show ?thesis
      using True h1 by (subst unit_until.simps) simp
  next
    case False
    then show ?thesis by (subst unit_until.simps) simp
  qed
qed

lemma hist_maxvalue_max:
  assumes "unit h = max (unit a) (unit b)"
  shows "hist_maxvalue h = max (hist_maxvalue a) (hist_maxvalue b)"
proof -
  have "(2::int) ^ max m n = max (2 ^ m) (2 ^ n)" for m n :: nat
    by (simp add: max_def)
  then show ?thesis
    using assms by (simp add: hist_maxvalue_eq word4_le_unat max_mult_distrib_left [symmetric])
qed

lemma tinyhist_combine_refines:
  "tinyhist_combine cassert True (Some dst) src = merge_spec cassert dst src"
proof -
  let ?sm = "max (sample src) (sample dst)"
  let ?ts = "max (unat (sample dst)) (unat (sample src))"
  have ts: "unat ?sm = ?ts"
    by (simp add: word4_le_unat max.commute)
  have e1: "escalate_times (?ts - unat (sample src)) (hist_adjust_sample cassert) src
              = sample_until cassert ?sm src"
    by (simp only: ts [symmetric] sample_until_times [OF max.cobounded1])
  have e2: "escalate_times (?ts - unat (sample dst)) (hist_adjust_sample cassert) dst
              = sample_until cassert ?sm dst"
    by (simp only: ts [symmetric] sample_until_times [OF max.cobounded2])
  show ?thesis
  proof (cases "sample_until cassert ?sm src")
    case (Inl e)
    then show ?thesis
      by (simp add: tinyhist_combine_def merge_spec_def Let_def e1)
  next
    case src1: (Inr src1)
    show ?thesis
    proof (cases "sample_until cassert ?sm dst")
      case (Inl e)
      then show ?thesis
        using src1 by (simp add: tinyhist_combine_def merge_spec_def Let_def e1 e2)
    next
      case dst1: (Inr dst1)
      let ?um = "max (unit src1) (unit dst1)"
      let ?tu = "max (unat (unit dst1)) (unat (unit src1))"
      have tu: "unat ?um = ?tu"
        by (simp add: word4_le_unat max.commute)
      have u1: "escalate_times (?tu - unat (unit src1)) (hist_adjust_unit cassert) src1
                  = unit_until cassert ?um src1"
        by (simp only: tu [symmetric] unit_until_times [OF max.cobounded1])
      have u2: "escalate_times (?tu - unat (unit dst1)) (hist_adjust_unit cassert) dst1
                  = unit_until cassert ?um dst1"
        by (simp only: tu [symmetric] unit_until_times [OF max.cobounded2])
      have s1: "sample src1 = ?sm" "sample dst1 = ?sm"
        using sample_until_fields [OF src1 max.cobounded1]
          sample_until_fields [OF dst1 max.cobounded2] by simp_all
      show ?thesis
      proof (cases "unit_until cassert ?um src1")
        case (Inl e)
        then show ?thesis
          using src1 dst1 by (simp add: tinyhist_combine_def merge_spec_def Let_def e1 e2 u1)
      next
        case src2: (Inr src2)
        show ?thesis
        proof (cases "unit_until cassert ?um dst1")
          case (Inl e)
          then show ?thesis
            using src1 dst1 src2
            by (simp add: tinyhist_combine_def merge_spec_def Let_def e1 e2 u1 u2)
        next
          case dst2: (Inr dst2)
          have "sample src2 = sample dst2" "unit src2 = unit dst2"
            using unit_until_fields [OF src2 max.cobounded1]
              unit_until_fields [OF dst2 max.cobounded2] s1 by simp_all
          then show ?thesis
            using src1 dst1 src2 dst2
            by (simp add: tinyhist_combine_def merge_spec_def Let_def e1 e2 u1 u2
                cong: sum.case_cong prod.case_cong)
        qed
      qed
    qed
  qed
qed

lemma tinyhist_combine_unit:
  assumes "tinyhist_combine cassert True (Some dst) src = Inr (r, s)"
  shows "unit r = max (unit dst) (unit src)"
proof -
  let ?sm = "max (sample src) (sample dst)"
  from assms obtain src1 dst1 where
    src1: "sample_until cassert ?sm src = Inr src1" and
    dst1: "sample_until cassert ?sm dst = Inr dst1"
    by (auto simp: tinyhist_combine_def Let_def split: sum.splits)
  let ?um = "max (unit src1) (unit dst1)"
  from assms src1 dst1 obtain src2 dst2 where
    src2: "unit_until cassert ?um src1 = Inr src2" and
    dst2: "unit_until cassert ?um dst1 = Inr dst2"
    by (auto simp: tinyhist_combine_def Let_def split: sum.splits)
  from assms src1 dst1 src2 dst2 obtain src3 dst3 where
    third: "(if merge_overflows src2 dst2
             then (case hist_adjust_sample cassert src2 of
                     Inl e \<Rightarrow> Inl e
                   | Inr s \<Rightarrow>
                       (case hist_adjust_sample cassert dst2 of
                          Inl e \<Rightarrow> Inl e
                        | Inr d \<Rightarrow> Inr (s, d)))
             else Inr (src2, dst2)) = Inr (src3, dst3)" and
    loop: "for_loop (\<lambda>i d. let cnt = bucket_get src3 i + bucket_get d i
                           in bucket_set cassert d i cnt)
             [0..<HISTOGRAM_BUCKETS] dst3 = Inr r"
    by (auto simp: tinyhist_combine_def Let_def split: sum.splits if_splits)
  have "unit dst3 = unit dst2"
    using third by (auto split: if_splits sum.splits dest: hist_adjust_sample_fields(2))
  moreover have "unit r = unit dst3"
    by (rule for_loop_invariant [OF loop]) (auto simp: Let_def dest: bucket_set_fields(2))
  moreover have "unit dst2 = ?um"
    using unit_until_fields [OF dst2 max.cobounded2] by simp
  moreover have "unit src1 = unit src" "unit dst1 = unit dst"
    using sample_until_fields [OF src1 max.cobounded1]
      sample_until_fields [OF dst1 max.cobounded2] by simp_all
  ultimately show ?thesis by (simp add: max.commute)
qed

lemma tinyhist_combine_production:
  "\<exists>r s. tinyhist_combine False True (Some dst) src = Inr (r, s)"
proof -
  let ?sm = "max (sample src) (sample dst)"
  obtain src1 where src1: "sample_until False ?sm src = Inr src1"
    using sample_until_total by blast
  obtain dst1 where dst1: "sample_until False ?sm dst = Inr dst1"
    using sample_until_total by blast
  let ?um = "max (unit src1) (unit dst1)"
  obtain src2 where src2: "unit_until False ?um src1 = Inr src2"
    using unit_until_production by blast
  obtain dst2 where dst2: "unit_until False ?um dst1 = Inr dst2"
    using unit_until_production by blast
  obtain s d where sd: "hist_adjust_sample False src2 = Inr s" "hist_adjust_sample False dst2 = Inr d"
    using hist_adjust_sample_total by blast
  obtain src3 dst3 where third: "(if merge_overflows src2 dst2
             then (case hist_adjust_sample False src2 of
                     Inl e \<Rightarrow> Inl e
                   | Inr s \<Rightarrow>
                       (case hist_adjust_sample False dst2 of
                          Inl e \<Rightarrow> Inl e
                        | Inr d \<Rightarrow> Inr (s, d)))
             else Inr (src2, dst2)) = Inr (src3, dst3)"
    using sd by (cases "merge_overflows src2 dst2") simp_all
  obtain dst4 where loop: "for_loop (\<lambda>i d. let cnt = bucket_get src3 i + bucket_get d i
                           in bucket_set False d i cnt)
             [0..<HISTOGRAM_BUCKETS] dst3 = Inr dst4"
    using for_loop_total [of "[0..<HISTOGRAM_BUCKETS]"
        "\<lambda>i d. let cnt = bucket_get src3 i + bucket_get d i in bucket_set False d i cnt" dst3]
    by (auto simp: bucket_set_production)
  have "tinyhist_combine False True (Some dst) src = Inr (dst4, src3)"
    unfolding tinyhist_combine_def Let_def
    using src1 dst1 src2 dst2 third loop by (simp add: Let_def)
  then show ?thesis by blast
qed

section \<open>The range loop\<close>

lemma flag_loop:
  "fold (\<lambda>i adjust_sample. if P i then True else adjust_sample) xs a
     \<longleftrightarrow> a \<or> (\<exists>i\<in>set xs. P i)"
  by (induction xs arbitrary: a) auto

lemma adjust_sample_needed_iff:
  "adjust_sample_needed hist \<longleftrightarrow>
     bucket_get hist 0 + bucket_get hist 1 \<ge> bucket_maxcount 0
     \<or> (\<exists>i. 1 \<le> i \<and> i < 15 \<and> bucket_get hist (i + 1) \<ge> bucket_maxcount i)"
  unfolding adjust_sample_needed_def flag_loop
  by (auto simp: HISTOGRAM_BUCKETS_def)

lemma bucket_maxcount_eq: "bucket_maxcount i = 2 ^ (bucket_bits ! i) - 1"
  by (simp add: bucket_maxcount_def)

lemma hist_adjust_unit_after_check:
  assumes "hist_ok hist" "\<not> adjust_sample_needed hist"
  shows "\<exists>h. hist_adjust_unit cassert hist = Inr h \<and> hist_ok h
           \<and> sample h = sample hist \<and> unit h = unit hist + 1
           \<and> bucket_get h 0 = bucket_get hist 0 + bucket_get hist 1
           \<and> (\<forall>i. 1 \<le> i \<and> i < 15 \<longrightarrow> bucket_get h i = bucket_get hist (i + 1))
           \<and> bucket_get h 15 = 0"
proof -
  have b0: "bucket_get hist 0 + bucket_get hist 1 < 2 ^ 8"
    using assms(2) by (simp add: adjust_sample_needed_iff bucket_maxcount_eq bucket_bits_def)
  have bi: "\<forall>i. 1 \<le> i \<and> i < 15 \<longrightarrow> bucket_get hist (i + 1) < 2 ^ (bucket_bits ! i)"
    using assms(2) by (auto simp: adjust_sample_needed_iff bucket_maxcount_eq)
  obtain h where h: "hist_adjust_unit cassert hist = Inr h" "hist_ok h"
      "sample h = sample hist" "unit h = unit hist + 1"
      "bucket_get h 0 = take_bit 8 (bucket_get hist 0 + bucket_get hist 1)"
      "\<forall>i. 1 \<le> i \<and> i < 15 \<longrightarrow>
                  bucket_get h i = take_bit (bucket_bits ! i) (bucket_get hist (i + 1))"
      "bucket_get h 15 = 0"
    using hist_adjust_unit_buckets [OF assms(1), of cassert] b0 bi by auto
  have "0 \<le> bucket_get hist 0 + bucket_get hist 1"
    using bucket_get_nonneg [of hist 0] bucket_get_nonneg [of hist 1] by simp
  then have "bucket_get h 0 = bucket_get hist 0 + bucket_get hist 1"
    using h(5) b0 by (simp add: take_bit_int_eq_self)
  moreover have "bucket_get h i = bucket_get hist (i + 1)" if "1 \<le> i \<and> i < 15" for i
    using h(6) bi that bucket_get_nonneg [of hist "i + 1"]
    by (simp add: take_bit_int_eq_self)
  ultimately show ?thesis using h(1-4,7) by auto
qed

lemma sample_loop_result:
  assumes "sample_loop cassert hist = Some r"
  shows "hist_ok hist \<longrightarrow>
           (\<exists>h. r = Inr h \<and> hist_ok h \<and> \<not> adjust_sample_needed h \<and> unit h = unit hist)"
proof (rule sample_loop.raw_induct
    [where P = "\<lambda>cassert hist r. hist_ok hist \<longrightarrow>
           (\<exists>h. r = Inr h \<and> hist_ok h \<and> \<not> adjust_sample_needed h \<and> unit h = unit hist)",
      OF _ assms])
  fix loop :: "bool \<Rightarrow> tinyhist_t \<Rightarrow> (error + tinyhist_t) option"
  fix cassert hist r
  assume IH: "\<And>c h y. loop c h = Some y \<Longrightarrow> hist_ok h \<longrightarrow>
           (\<exists>h'. y = Inr h' \<and> hist_ok h' \<and> \<not> adjust_sample_needed h' \<and> unit h' = unit h)"
  assume body: "(if \<not> adjust_sample_needed hist then Some (Inr hist)
      else case hist_adjust_sample cassert hist of Inl e \<Rightarrow> Some (Inl e)
           | Inr h \<Rightarrow> loop cassert h) = Some r"
  show "hist_ok hist \<longrightarrow>
           (\<exists>h. r = Inr h \<and> hist_ok h \<and> \<not> adjust_sample_needed h \<and> unit h = unit hist)"
  proof
    assume ok: "hist_ok hist"
    show "\<exists>h. r = Inr h \<and> hist_ok h \<and> \<not> adjust_sample_needed h \<and> unit h = unit hist"
    proof (cases "adjust_sample_needed hist")
      case False
      then show ?thesis using body ok by auto
    next
      case True
      obtain h1 where h1: "hist_adjust_sample cassert hist = Inr h1" "hist_ok h1"
          "unit h1 = unit hist"
        using hist_adjust_sample_buckets [OF ok, of cassert] by auto
      then have "loop cassert h1 = Some r"
        using body True by simp
      from IH [OF this] show ?thesis
        using h1 by simp
    qed
  qed
qed

lemma hist_maxvalue_le: "hist_maxvalue hist \<le> 2 ^ 30"
proof -
  have "unat (unit hist) < 16"
    using unsigned_less [of "unit hist"] by simp
  then have "(2::int) ^ unat (unit hist) \<le> 2 ^ 15"
    by (intro power_increasing) simp_all
  then show ?thesis by (simp add: hist_maxvalue_eq)
qed

lemma int_lt_float8_mono:
  assumes "int_lt_float8 m value" "n \<le> m"
  shows "int_lt_float8 n value"
  using assms by (cases "value") simp_all

lemma hist_adjust_range_never_returns:
  assumes "hist_adjust_range cassert hist value = Some y"
  shows "hist_ok hist \<longrightarrow> \<not> int_lt_float8 (2 ^ 30) value"
proof (rule hist_adjust_range.raw_induct
    [where P = "\<lambda>cassert hist value y. hist_ok hist \<longrightarrow> \<not> int_lt_float8 (2 ^ 30) value",
      OF _ assms])
  fix range :: "bool \<Rightarrow> tinyhist_t \<Rightarrow> float8 \<Rightarrow> (error + tinyhist_t) option"
  fix cassert hist "value" y
  assume IH: "\<And>c h v y. range c h v = Some y \<Longrightarrow> hist_ok h \<longrightarrow> \<not> int_lt_float8 (2 ^ 30) v"
  assume body: "(if int_lt_float8 (hist_maxvalue hist) value
      then Option.bind (sample_loop cassert hist)
            (\<lambda>r. case r of Inl e \<Rightarrow> Some (Inl e)
                 | Inr h1 \<Rightarrow>
                     case hist_adjust_unit cassert h1 of
                     Inl e \<Rightarrow> Some (Inl e)
                     | Inr h2 \<Rightarrow> range cassert h2 value)
      else Some (Inr hist)) = Some y"
  show "hist_ok hist \<longrightarrow> \<not> int_lt_float8 (2 ^ 30) value"
  proof (intro impI notI)
    assume ok: "hist_ok hist" and big: "int_lt_float8 (2 ^ 30) value"
    have lt: "int_lt_float8 (hist_maxvalue hist) value"
      using int_lt_float8_mono [OF big hist_maxvalue_le] .
    then obtain r where r: "sample_loop cassert hist = Some r"
        and rest: "(case r of
                     Inl e \<Rightarrow> Some (Inl e)
                   | Inr h1 \<Rightarrow>
                       (case hist_adjust_unit cassert h1 of
                          Inl e \<Rightarrow> Some (Inl e)
                        | Inr h2 \<Rightarrow> range cassert h2 value)) = Some y"
      using body by (auto simp: bind_eq_Some_conv)
    obtain h1 where h1: "r = Inr h1" "hist_ok h1" "\<not> adjust_sample_needed h1"
      using sample_loop_result [OF r] ok by blast
    obtain h2 where h2: "hist_adjust_unit cassert h1 = Inr h2" "hist_ok h2"
      using hist_adjust_unit_after_check [OF h1(2,3), of cassert] by blast
    have "range cassert h2 value = Some y"
      using rest h1(1) h2(1) by simp
    from IH [OF this] show False
      using h2(2) big by simp
  qed
qed

lemma hist_adjust_range_diverges:
  assumes "hist_ok hist" "int_lt_float8 (2 ^ 30) value"
  shows "hist_adjust_range cassert hist value = None"
proof (cases "hist_adjust_range cassert hist value")
  case None
  then show ?thesis .
next
  case (Some y)
  then show ?thesis
    using hist_adjust_range_never_returns [OF Some] assms by simp
qed

section \<open>Running the range loop on an example\<close>

lemma readout:
  assumes "map (bucket_get hist) [0..<16] = bs" "j < 16"
  shows "bucket_get hist j = bs ! j"
proof -
  have "map (bucket_get hist) [0..<16] ! j = bs ! j"
    by (simp only: assms(1))
  then show ?thesis using assms(2) by simp
qed

lemma nth_single:
  assumes "j < 16"
  shows "(replicate 16 (0::int))[k := c] ! j = (if j = k then c else 0)"
  using assms by (simp add: nth_list_update)

lemma hist_b0_128_u1_buckets:
  "map (bucket_get hist_b0_128_u1) [0..<16] = (replicate 16 0)[0 := 128]"
  by code_simp

lemma hist_b0_128_u1_get:
  assumes "j < 16"
  shows "bucket_get hist_b0_128_u1 j = (if j = 0 then 128 else 0)"
  using readout [OF hist_b0_128_u1_buckets assms] nth_single [OF assms] by simp

lemma hist_b0_128_u1_ok: "hist_ok hist_b0_128_u1"
  by (simp add: hist_ok_def hist_b0_128_u1_def)

lemma sample_loop_done:
  assumes "\<not> adjust_sample_needed hist"
  shows "sample_loop cassert hist = Some (Inr hist)"
  using assms by (subst sample_loop.simps) simp

lemma sample_loop_step:
  assumes "adjust_sample_needed hist" "hist_adjust_sample cassert hist = Inr h"
  shows "sample_loop cassert hist = sample_loop cassert h"
  using assms by (subst sample_loop.simps) simp

lemma hist_adjust_range_done:
  assumes "\<not> int_lt_float8 (hist_maxvalue hist) value"
  shows "hist_adjust_range cassert hist value = Some (Inr hist)"
  using assms by (subst hist_adjust_range.simps) simp

lemma hist_adjust_range_step:
  assumes "int_lt_float8 (hist_maxvalue hist) value"
    "sample_loop cassert hist = Some (Inr h1)" "hist_adjust_unit cassert h1 = Inr h2"
  shows "hist_adjust_range cassert hist value = hist_adjust_range cassert h2 value"
  using assms by (subst hist_adjust_range.simps) simp

lemma hist_adjust_range_wraps_sample:
  "hist_adjust_range cassert (hist_b1_256\<lparr>sample := 15\<rparr>) (Finite 40000)
     = Some (Inr hist_b0_128_u1)"
proof -
  let ?h0 = "hist_b1_256\<lparr>sample := 15\<rparr>"
  have ok0: "hist_ok ?h0" by (simp add: hist_b1_256_ok)
  have need0: "adjust_sample_needed ?h0"
    by (simp add: adjust_sample_needed_iff hist_b1_256_get bucket_maxcount_eq bucket_bits_def)
  obtain h1 where h1: "hist_adjust_sample cassert ?h0 = Inr h1" "hist_ok h1"
      "sample h1 = sample ?h0 + 1" "unit h1 = unit ?h0"
      "\<forall>j<16. bucket_get h1 j = bucket_get ?h0 j div 2"
    using hist_adjust_sample_buckets [OF ok0, of cassert] by auto
  have g1: "bucket_get h1 j = (if j = 1 then 128 else 0)" if "j < 16" for j
    using h1(5) that by (simp add: hist_b1_256_get)
  have "bucket_get h1 0 + bucket_get h1 1 = 128"
    using g1 [of 0] g1 [of 1] by simp
  then have a: "\<not> bucket_get h1 0 + bucket_get h1 1 \<ge> bucket_maxcount 0"
    by (simp add: bucket_maxcount_eq bucket_bits_def)
  have pos: "0 < bucket_maxcount i" if "i < 15" for i
  proof -
    have "(2::int) ^ 8 \<le> 2 ^ (bucket_bits ! i)"
      using bucket_bits_ge8 [of i] that by (intro power_increasing) simp_all
    then show ?thesis by (simp add: bucket_maxcount_eq)
  qed
  have b: "\<not> bucket_get h1 (i + 1) \<ge> bucket_maxcount i" if "1 \<le> i \<and> i < 15" for i
    using g1 [of "i + 1"] pos [of i] that by simp
  have need1: "\<not> adjust_sample_needed h1"
    unfolding adjust_sample_needed_iff using a b by blast
  have sl: "sample_loop cassert ?h0 = Some (Inr h1)"
    using sample_loop_step [OF need0 h1(1)] sample_loop_done [OF need1] by simp
  obtain h2 where h2: "hist_adjust_unit cassert h1 = Inr h2" "hist_ok h2"
      "sample h2 = sample h1" "unit h2 = unit h1 + 1"
      "bucket_get h2 0 = bucket_get h1 0 + bucket_get h1 1"
      "\<forall>i. 1 \<le> i \<and> i < 15 \<longrightarrow> bucket_get h2 i = bucket_get h1 (i + 1)"
      "bucket_get h2 15 = 0"
    using hist_adjust_unit_after_check [OF h1(2) need1, of cassert] by blast
  have "h2 = hist_b0_128_u1"
  proof (rule hist_eqI)
    show "sample h2 = sample hist_b0_128_u1"
      using h2(3) h1(3) by (simp add: hist_b0_128_u1_def)
    show "unit h2 = unit hist_b0_128_u1"
      using h2(4) h1(4) by (simp add: hist_b0_128_u1_def hist_b1_256_def)
    show "bucket_get h2 j = bucket_get hist_b0_128_u1 j" if j: "j < 16" for j
    proof -
      consider "j = 0" | "1 \<le> j \<and> j < 15" | "j = 15" using j by linarith
      then show ?thesis
      proof cases
        case 1
        then show ?thesis
          using h2(5) g1 [of 0] g1 [of 1] by (simp add: hist_b0_128_u1_get)
      next
        case 2
        then show ?thesis
          using h2(6) g1 [of "j + 1"] by (simp add: hist_b0_128_u1_get)
      next
        case 3
        then show ?thesis using h2(7) by (simp add: hist_b0_128_u1_get)
      qed
    qed
  qed (simp_all add: h2(2) hist_b0_128_u1_ok)
  then have h2': "hist_adjust_unit cassert h1 = Inr hist_b0_128_u1"
    using h2(1) by simp
  have "int_lt_float8 (hist_maxvalue ?h0) (Finite 40000)"
    by (simp add: hist_maxvalue_eq hist_b1_256_def)
  moreover have "\<not> int_lt_float8 (hist_maxvalue hist_b0_128_u1) (Finite 40000)"
    by (simp add: hist_maxvalue_eq hist_b0_128_u1_def)
  ultimately show ?thesis
    using hist_adjust_range_step [OF _ sl h2'] hist_adjust_range_done by simp
qed

section \<open>Accumulating and merging the examples\<close>

lemma hist_u1_b15_1_ok: "hist_ok hist_u1_b15_1"
  by (simp add: hist_ok_def hist_u1_b15_1_def)

lemma hist_u1_b15_1_buckets:
  "map (bucket_get hist_u1_b15_1) [0..<16] = (replicate 16 0)[15 := 1]"
  by code_simp

lemma hist_u1_b15_1_get:
  assumes "j < 16"
  shows "bucket_get hist_u1_b15_1 j = (if j = 15 then 1 else 0)"
  using readout [OF hist_u1_b15_1_buckets assms] nth_single [OF assms] by simp

lemma bucket_index_two:
  assumes "unit hist = 0"
  shows "bucket_index cassert hist (Finite 2) = Inr 1"
  using assms by (simp add: bucket_index_def hist_maxvalue_eq HISTOGRAM_BUCKETS_def)

lemma bucket_index_40000:
  assumes "unit hist = 1"
  shows "bucket_index cassert hist (Finite 40000) = Inr 15"
  using assms by (simp add: bucket_index_def hist_maxvalue_eq HISTOGRAM_BUCKETS_def)

lemma hist_sample_always:
  assumes "sample hist = 0"
  shows "hist_sample hist r"
  using assms by (simp add: hist_sample_def)

lemma accum_two:
  assumes "(case arg0 of None \<Rightarrow> palloc0_hist | Some s \<Rightarrow> s) = h"
    and "hist_ok h" "sample h = 0" "unit h = 0" "bucket_get h 1 < 511"
  shows "tinyhist_accum cassert True arg0 (Some (Finite 2)) r
           = Some (Inr (Some (bucket_store h 1 (bucket_get h 1 + 1))))"
proof -
  have range: "hist_adjust_range cassert h (Finite 2) = Some (Inr h)"
    using assms(4) by (intro hist_adjust_range_done) (simp add: hist_maxvalue_eq)
  have idx: "bucket_index cassert h (Finite 2) = Inr 1"
    using assms(4) by (rule bucket_index_two)
  have notfull: "bucket_get h 1 \<noteq> bucket_maxcount 1"
    using assms(5) by (simp add: bucket_maxcount_eq bucket_bits_def)
  have "bucket_get h 1 + 1 < 2 ^ (bucket_bits ! 1)"
    using assms(5) by (simp add: bucket_bits_def)
  then have st: "bucket_set cassert h 1 (bucket_get h 1 + 1)
                   = Inr (bucket_store h 1 (bucket_get h 1 + 1))"
    by (intro bucket_set_store) simp_all
  show ?thesis
    unfolding tinyhist_accum_def
    using assms(1) hist_sample_always [OF assms(3)] range idx notfull st
    by (simp add: Let_def)
qed

lemma bucket_store_twice:
  assumes "hist_ok hist" "b < 16"
  shows "bucket_store (bucket_store hist b c) b c' = bucket_store hist b c'"
proof (rule hist_eqI)
  show "bucket_get (bucket_store (bucket_store hist b c) b c') j
          = bucket_get (bucket_store hist b c') j" if "j < 16" for j
    using assms that by (simp add: bucket_get_store bucket_store_ok)
qed (simp_all add: assms bucket_store_ok bucket_store_fields)

lemma reachable_count:
  assumes "1 \<le> n" "n \<le> 256"
  shows "reachable (bucket_store palloc0_hist 1 (int n))"
  using assms
proof (induction n)
  case 0
  then show ?case by simp
next
  case (Suc n)
  show ?case
  proof (cases "n = 0")
    case True
    have f: "sample palloc0_hist = 0" "unit palloc0_hist = 0"
      by (simp_all add: palloc0_hist_def)
    have lt: "bucket_get palloc0_hist 1 < 511"
      by (simp add: bucket_get_palloc0)
    have "tinyhist_accum True True None (Some (Finite 2)) 0
            = Some (Inr (Some (bucket_store palloc0_hist 1 (bucket_get palloc0_hist 1 + 1))))"
      by (rule accum_two [OF _ palloc0_ok f lt]) simp
    then have "reachable (bucket_store palloc0_hist 1 (bucket_get palloc0_hist 1 + 1))"
      by (rule reachable.first)
    moreover have "bucket_get palloc0_hist 1 = 0"
      by (simp add: bucket_get_palloc0)
    ultimately show ?thesis using True by simp
  next
    case False
    let ?h = "bucket_store palloc0_hist 1 (int n)"
    have r: "reachable ?h" using Suc False by simp
    have ok: "hist_ok ?h" by (simp add: bucket_store_ok palloc0_ok)
    have "take_bit 9 (int n) = int n"
      using Suc.prems by (simp add: take_bit_int_eq_self)
    then have g: "bucket_get ?h 1 = int n"
      by (simp add: bucket_get_store palloc0_ok bucket_bits_def)
    have f: "sample ?h = 0" "unit ?h = 0"
      by (simp_all add: bucket_store_fields palloc0_hist_def)
    have lt: "bucket_get ?h 1 < 511"
      unfolding g using Suc.prems by simp
    have "tinyhist_accum True True (Some ?h) (Some (Finite 2)) 0
            = Some (Inr (Some (bucket_store ?h 1 (bucket_get ?h 1 + 1))))"
      by (rule accum_two [OF _ ok f lt]) simp
    then have "reachable (bucket_store ?h 1 (bucket_get ?h 1 + 1))"
      by (rule reachable.accum [OF r])
    moreover have "bucket_store ?h 1 (int n + 1) = bucket_store palloc0_hist 1 (int n + 1)"
      by (rule bucket_store_twice [OF palloc0_ok]) simp
    ultimately have "reachable (bucket_store palloc0_hist 1 (int n + 1))"
      using g by simp
    then show ?thesis
      by (simp add: add.commute)
  qed
qed

lemma hist_b1_256_store: "hist_b1_256 = bucket_store palloc0_hist 1 256"
proof (rule hist_eqI)
  show "bucket_get hist_b1_256 j = bucket_get (bucket_store palloc0_hist 1 256) j" if "j < 16" for j
    using that by (simp add: hist_b1_256_get bucket_get_store palloc0_ok bucket_get_palloc0 bucket_bits_def)
qed (simp_all add: hist_b1_256_ok bucket_store_ok palloc0_ok bucket_store_fields,
     simp_all add: hist_b1_256_def palloc0_hist_def)

lemma reachable_b1_256: "reachable hist_b1_256"
  using reachable_count [of 256] by (simp add: hist_b1_256_store)

lemma no_adjust_when_empty:
  assumes "\<And>j. j < 16 \<Longrightarrow> bucket_get hist j = 0"
  shows "\<not> adjust_sample_needed hist"
proof -
  have pos: "0 < bucket_maxcount i" if "i < 15" for i
  proof -
    have "(2::int) ^ 8 \<le> 2 ^ (bucket_bits ! i)"
      using bucket_bits_ge8 [of i] that by (intro power_increasing) simp_all
    then show ?thesis by (simp add: bucket_maxcount_eq)
  qed
  have "\<not> bucket_get hist 0 + bucket_get hist 1 \<ge> bucket_maxcount 0"
    using assms [of 0] assms [of 1] pos [of 0] by simp
  moreover have "\<not> bucket_get hist (i + 1) \<ge> bucket_maxcount i" if "1 \<le> i \<and> i < 15" for i
    using assms [of "i + 1"] pos [of i] that by simp
  ultimately show ?thesis
    unfolding adjust_sample_needed_iff by blast
qed

lemma hist_adjust_unit_empty:
  "hist_adjust_unit cassert palloc0_hist = Inr (palloc0_hist\<lparr>unit := 1\<rparr>)"
proof -
  have need: "\<not> adjust_sample_needed palloc0_hist"
    by (rule no_adjust_when_empty) (simp add: bucket_get_palloc0)
  obtain h where h: "hist_adjust_unit cassert palloc0_hist = Inr h" "hist_ok h"
      "sample h = sample palloc0_hist" "unit h = unit palloc0_hist + 1"
      "bucket_get h 0 = bucket_get palloc0_hist 0 + bucket_get palloc0_hist 1"
      "\<forall>i. 1 \<le> i \<and> i < 15 \<longrightarrow> bucket_get h i = bucket_get palloc0_hist (i + 1)"
      "bucket_get h 15 = 0"
    using hist_adjust_unit_after_check [OF palloc0_ok need, of cassert] by blast
  have "h = palloc0_hist\<lparr>unit := 1\<rparr>"
  proof (rule hist_eqI)
    show "sample h = sample (palloc0_hist\<lparr>unit := 1\<rparr>)" using h(3) by simp
    show "unit h = unit (palloc0_hist\<lparr>unit := 1\<rparr>)" using h(4) by (simp add: palloc0_hist_def)
    show "bucket_get h j = bucket_get (palloc0_hist\<lparr>unit := 1\<rparr>) j" if j: "j < 16" for j
    proof -
      consider "j = 0" | "1 \<le> j \<and> j < 15" | "j = 15" using j by linarith
      then show ?thesis
      proof cases
        case 1
        have "bucket_get palloc0_hist 0 + bucket_get palloc0_hist 1 = 0"
          by (simp add: bucket_get_palloc0)
        then show ?thesis using 1 h(5) by (simp add: bucket_get_palloc0)
      next
        case 2
        then show ?thesis using h(6) by (simp add: bucket_get_palloc0)
      next
        case 3
        then show ?thesis using h(7) by (simp add: bucket_get_palloc0)
      qed
    qed
  qed (simp_all add: h(2) palloc0_ok)
  then show ?thesis using h(1) by simp
qed

lemma hist_u1_b15_1_store: "hist_u1_b15_1 = bucket_store (palloc0_hist\<lparr>unit := 1\<rparr>) 15 1"
proof (rule hist_eqI)
  show "bucket_get hist_u1_b15_1 j = bucket_get (bucket_store (palloc0_hist\<lparr>unit := 1\<rparr>) 15 1) j"
    if "j < 16" for j
    using that
    by (simp add: hist_u1_b15_1_get bucket_get_store palloc0_ok bucket_get_palloc0 bucket_bits_def)
qed (simp_all add: hist_u1_b15_1_ok bucket_store_ok palloc0_ok bucket_store_fields,
     simp_all add: hist_u1_b15_1_def palloc0_hist_def)

lemma reachable_u1_b15_1: "reachable hist_u1_b15_1"
proof -
  let ?h2 = "palloc0_hist\<lparr>unit := 1\<rparr>"
  have need: "\<not> adjust_sample_needed palloc0_hist"
    by (rule no_adjust_when_empty) (simp add: bucket_get_palloc0)
  have lt: "int_lt_float8 (hist_maxvalue palloc0_hist) (Finite 40000)"
    by (simp add: hist_maxvalue_eq palloc0_hist_def)
  have ge: "\<not> int_lt_float8 (hist_maxvalue ?h2) (Finite 40000)"
    by (simp add: hist_maxvalue_eq)
  have range: "hist_adjust_range True palloc0_hist (Finite 40000) = Some (Inr ?h2)"
    using hist_adjust_range_step [OF lt sample_loop_done [OF need] hist_adjust_unit_empty]
      hist_adjust_range_done [OF ge] by simp
  have idx: "bucket_index True ?h2 (Finite 40000) = Inr 15"
    by (rule bucket_index_40000) simp
  have g: "bucket_get ?h2 15 = 0"
    by (simp add: bucket_get_palloc0)
  have notfull: "bucket_get ?h2 15 \<noteq> bucket_maxcount 15"
    unfolding g by (simp add: bucket_maxcount_eq bucket_bits_def)
  have st: "bucket_set True ?h2 15 (bucket_get ?h2 15 + 1) = Inr (bucket_store ?h2 15 1)"
    unfolding g by (simp add: bucket_set_def HISTOGRAM_BUCKETS_def bucket_bits_def)
  have smp: "hist_sample palloc0_hist 0"
    by (rule hist_sample_always) (simp add: palloc0_hist_def)
  have "tinyhist_accum True True None (Some (Finite 40000)) 0
          = Some (Inr (Some (bucket_store ?h2 15 1)))"
    unfolding tinyhist_accum_def
    using smp range idx notfull st by (simp add: Let_def)
  then have "reachable (bucket_store ?h2 15 1)"
    by (rule reachable.first)
  then show ?thesis by (simp add: hist_u1_b15_1_store)
qed

lemma merge_loop:
  assumes "hist_ok dst" "k \<le> 16"
    and "cassert \<longrightarrow> (\<forall>i<k. bucket_get src i + bucket_get dst i < 2 ^ (bucket_bits ! i))"
  shows "\<exists>d. for_loop (\<lambda>i d. let cnt = bucket_get src i + bucket_get d i
                              in bucket_set cassert d i cnt) [0..<k] dst = Inr d
             \<and> hist_ok d \<and> sample d = sample dst \<and> unit d = unit dst
             \<and> (\<forall>j<16. bucket_get d j
                    = (if j < k then take_bit (bucket_bits ! j) (bucket_get src j + bucket_get dst j)
                       else bucket_get dst j))"
  using assms(2,3)
proof (induction k)
  case 0
  then show ?case using assms(1) by simp
next
  case (Suc k)
  then obtain d where d:
    "for_loop (\<lambda>i d. let cnt = bucket_get src i + bucket_get d i
                      in bucket_set cassert d i cnt) [0..<k] dst = Inr d"
    "hist_ok d" "sample d = sample dst" "unit d = unit dst"
    "\<forall>j<16. bucket_get d j
               = (if j < k then take_bit (bucket_bits ! j) (bucket_get src j + bucket_get dst j)
                  else bucket_get dst j)"
    by auto
  have k: "k < 16" using Suc.prems by simp
  let ?c = "bucket_get src k + bucket_get d k"
  have old: "bucket_get d k = bucket_get dst k"
    using d(5) k by simp
  have "cassert \<longrightarrow> ?c < 2 ^ (bucket_bits ! k)"
    using Suc.prems(2) old by simp
  then have st: "bucket_set cassert d k ?c = Inr (bucket_store d k ?c)"
    using k by (intro bucket_set_store) simp_all
  have "for_loop (\<lambda>i d. let cnt = bucket_get src i + bucket_get d i
                         in bucket_set cassert d i cnt) [0..<Suc k] dst
          = Inr (bucket_store d k ?c)"
    using d(1) st by (simp add: for_loop_append Let_def)
  moreover have "\<forall>j<16. bucket_get (bucket_store d k ?c) j
                   = (if j < Suc k
                      then take_bit (bucket_bits ! j) (bucket_get src j + bucket_get dst j)
                      else bucket_get dst j)"
    using d(2,5) k old by (auto simp: bucket_get_store less_Suc_eq)
  ultimately show ?case
    using d(2,3,4) by (simp add: bucket_store_ok bucket_store_fields)
qed

lemma hist_adjust_unit_256_assert: "hist_adjust_unit True hist_b1_256 = Inl AssertFailed"
proof -
  have sum: "bucket_get hist_b1_256 0 + bucket_get hist_b1_256 1 = 256"
    by (simp add: hist_b1_256_get)
  have "bucket_set True hist_b1_256 0 256 = Inl AssertFailed"
    by (simp add: bucket_set_def bucket_bits_def HISTOGRAM_BUCKETS_def)
  then show ?thesis
    unfolding hist_adjust_unit_def sum by simp
qed

lemma hist_adjust_unit_256_production:
  "hist_adjust_unit False hist_b1_256 = Inr (palloc0_hist\<lparr>unit := 1\<rparr>)"
proof -
  have sum: "bucket_get hist_b1_256 0 + bucket_get hist_b1_256 1 = 256"
    by (simp add: hist_b1_256_get)
  obtain h where h: "hist_adjust_unit False hist_b1_256 = Inr h" "hist_ok h"
      "sample h = sample hist_b1_256" "unit h = unit hist_b1_256 + 1"
      "bucket_get h 0 = take_bit 8 (bucket_get hist_b1_256 0 + bucket_get hist_b1_256 1)"
      "\<forall>i. 1 \<le> i \<and> i < 15 \<longrightarrow>
                  bucket_get h i = take_bit (bucket_bits ! i) (bucket_get hist_b1_256 (i + 1))"
      "bucket_get h 15 = 0"
    using hist_adjust_unit_buckets [OF hist_b1_256_ok, of False] by auto
  have "h = palloc0_hist\<lparr>unit := 1\<rparr>"
  proof (rule hist_eqI)
    show "sample h = sample (palloc0_hist\<lparr>unit := 1\<rparr>)"
      using h(3) by (simp add: palloc0_hist_def hist_b1_256_def)
    show "unit h = unit (palloc0_hist\<lparr>unit := 1\<rparr>)"
      using h(4) by (simp add: palloc0_hist_def hist_b1_256_def)
    show "bucket_get h j = bucket_get (palloc0_hist\<lparr>unit := 1\<rparr>) j" if j: "j < 16" for j
    proof -
      consider "j = 0" | "1 \<le> j \<and> j < 15" | "j = 15" using j by linarith
      then show ?thesis
      proof cases
        case 1
        moreover from h(5) [unfolded sum] have "bucket_get h 0 = 0" by simp
        ultimately show ?thesis by (simp add: bucket_get_palloc0)
      next
        case 2
        then show ?thesis using h(6) by (simp add: hist_b1_256_get bucket_get_palloc0)
      next
        case 3
        then show ?thesis using h(7) by (simp add: bucket_get_palloc0)
      qed
    qed
  qed (simp_all add: h(2) palloc0_ok)
  then show ?thesis using h(1) by simp
qed

lemma sample_until_done:
  assumes "\<not> sample hist < sample_max"
  shows "sample_until cassert sample_max hist = Inr hist"
  using assms by (subst sample_until.simps) simp

lemma unit_until_done:
  assumes "\<not> unit hist < unit_max"
  shows "unit_until cassert unit_max hist = Inr hist"
  using assms by (subst unit_until.simps) simp

lemma unit_until_step:
  assumes "unit hist < unit_max"
  shows "unit_until cassert unit_max hist
           = (case hist_adjust_unit cassert hist of
                Inl e \<Rightarrow> Inl e
              | Inr h \<Rightarrow> unit_until cassert unit_max h)"
  using assms by (subst unit_until.simps) simp

lemma combine_256_assert:
  "tinyhist_combine True True (Some hist_u1_b15_1) hist_b1_256 = Inl AssertFailed"
proof -
  have f: "sample hist_b1_256 = 0" "sample hist_u1_b15_1 = 0"
    "unit hist_b1_256 = 0" "unit hist_u1_b15_1 = 1"
    by (simp_all add: hist_b1_256_def hist_u1_b15_1_def)
  have s1: "sample_until True 0 hist_b1_256 = Inr hist_b1_256"
    by (rule sample_until_done) (simp add: f)
  have s2: "sample_until True 0 hist_u1_b15_1 = Inr hist_u1_b15_1"
    by (rule sample_until_done) (simp add: f)
  have u1: "unit_until True 1 hist_b1_256 = Inl AssertFailed"
    by (subst unit_until_step) (simp_all add: f hist_adjust_unit_256_assert)
  show ?thesis
    unfolding tinyhist_combine_def Let_def
    by (simp add: f s1 s2 u1)
qed

lemma combine_256_production:
  "tinyhist_combine False True (Some hist_u1_b15_1) hist_b1_256
     = Inr (hist_u1_b15_1, palloc0_hist\<lparr>unit := 1\<rparr>)"
proof -
  let ?s2 = "palloc0_hist\<lparr>unit := 1\<rparr>"
  have f: "sample hist_b1_256 = 0" "sample hist_u1_b15_1 = 0"
    "unit hist_b1_256 = 0" "unit hist_u1_b15_1 = 1"
    by (simp_all add: hist_b1_256_def hist_u1_b15_1_def)
  have s1: "sample_until False 0 hist_b1_256 = Inr hist_b1_256"
    by (rule sample_until_done) (simp add: f)
  have s2: "sample_until False 0 hist_u1_b15_1 = Inr hist_u1_b15_1"
    by (rule sample_until_done) (simp add: f)
  have "unit_until False 1 ?s2 = Inr ?s2"
    by (rule unit_until_done) simp
  then have u1: "unit_until False 1 hist_b1_256 = Inr ?s2"
    by (subst unit_until_step) (simp_all add: f hist_adjust_unit_256_production)
  have u2: "unit_until False 1 hist_u1_b15_1 = Inr hist_u1_b15_1"
    by (rule unit_until_done) (simp add: f)
  have "\<not> bucket_get ?s2 i + bucket_get hist_u1_b15_1 i > bucket_maxcount i" if i: "i < 16" for i
  proof -
    have "(2::int) ^ 8 \<le> 2 ^ (bucket_bits ! i)"
      using bucket_bits_ge8 [OF i] by (intro power_increasing) simp_all
    then show ?thesis
      using i by (auto simp: bucket_get_palloc0 hist_u1_b15_1_get bucket_maxcount_eq)
  qed
  then have ov: "\<not> merge_overflows ?s2 hist_u1_b15_1"
    by (simp add: merge_overflows_def list_ex_iff HISTOGRAM_BUCKETS_def Let_def)
  obtain d where d:
    "for_loop (\<lambda>i d. let cnt = bucket_get ?s2 i + bucket_get d i
                      in bucket_set False d i cnt) [0..<16] hist_u1_b15_1 = Inr d"
    "hist_ok d" "sample d = sample hist_u1_b15_1" "unit d = unit hist_u1_b15_1"
    "\<forall>j<16. bucket_get d j
               = (if j < 16
                  then take_bit (bucket_bits ! j) (bucket_get ?s2 j + bucket_get hist_u1_b15_1 j)
                  else bucket_get hist_u1_b15_1 j)"
    using merge_loop [OF hist_u1_b15_1_ok, of 16 False ?s2] by auto
  have "d = hist_u1_b15_1"
  proof (rule hist_eqI)
    show "bucket_get d j = bucket_get hist_u1_b15_1 j" if j: "j < 16" for j
    proof -
      have "bucket_get d j = take_bit (bucket_bits ! j) (bucket_get hist_u1_b15_1 j)"
        using d(5) j by (simp add: bucket_get_palloc0)
      then show ?thesis by (simp add: bucket_get_take_bit)
    qed
  qed (simp_all add: d(2,3,4) hist_u1_b15_1_ok)
  then have loop: "for_loop (\<lambda>i d. let cnt = bucket_get ?s2 i + bucket_get d i
                      in bucket_set False d i cnt) [0..<16] hist_u1_b15_1 = Inr hist_u1_b15_1"
    using d(1) by simp
  show ?thesis
    unfolding tinyhist_combine_def Let_def
    using loop [unfolded Let_def] by (simp add: f s1 s2 u1 u2 ov HISTOGRAM_BUCKETS_def)
qed






section \<open>When the range loop ends\<close>

text \<open>
  The inner loop always ends: every pass halves the buckets and a pass is only made when
  some bucket is not empty.  The outer loop ends for every value up to \<open>2^30\<close>, after at
  most 15 unit escalations, with a range wide enough for the value and a unit exponent
  that is not smaller than before.
\<close>

lemma needed_nonempty:
  assumes "adjust_sample_needed hist"
  shows "\<exists>j<16. 0 < bucket_get hist j"
proof -
  have pos: "0 < bucket_maxcount i" if "i < 15" for i
  proof -
    have "(2::int) ^ 8 \<le> 2 ^ (bucket_bits ! i)"
      using bucket_bits_ge8 [of i] that by (intro power_increasing) simp_all
    then show ?thesis by (simp add: bucket_maxcount_eq)
  qed
  from assms consider "bucket_get hist 0 + bucket_get hist 1 \<ge> bucket_maxcount 0"
    | i where "1 \<le> i" "i < 15" "bucket_get hist (i + 1) \<ge> bucket_maxcount i"
    unfolding adjust_sample_needed_iff by blast
  then show ?thesis
  proof cases
    case 1
    then have "0 < bucket_get hist 0 \<or> 0 < bucket_get hist 1"
      using pos [of 0] by auto
    moreover have "(0::nat) < 16" "(1::nat) < 16" by simp_all
    ultimately show ?thesis by blast
  next
    case 2
    then have "0 < bucket_get hist (i + 1)" "i + 1 < 16"
      using pos [of i] by simp_all
    then show ?thesis by blast
  qed
qed

lemma halving_decreases:
  assumes "\<forall>j<16. bucket_get h j = bucket_get hist j div 2" "\<exists>j<16. 0 < bucket_get hist j"
  shows "total_count h < total_count hist" "0 \<le> total_count h"
proof -
  have le: "bucket_get h j \<le> bucket_get hist j" if "j \<in> {..<16}" for j
    using assms(1) that bucket_get_nonneg [of hist j] by simp
  obtain k where k: "k \<in> {..<16}" "0 < bucket_get hist k"
    using assms(2) by auto
  then have "bucket_get h k < bucket_get hist k"
    using assms(1) by simp
  then show "total_count h < total_count hist"
    unfolding total_count_def using le k(1)
    by (intro sum_strict_mono_ex1) auto
  show "0 \<le> total_count h"
    unfolding total_count_def by (intro sum_nonneg) (simp add: bucket_get_nonneg)
qed

lemma sample_loop_terminates:
  assumes "hist_ok hist"
  shows "\<exists>h. sample_loop cassert hist = Some (Inr h) \<and> hist_ok h
           \<and> \<not> adjust_sample_needed h \<and> unit h = unit hist"
  using assms
proof (induction "nat (total_count hist)" arbitrary: hist rule: less_induct)
  case less
  show ?case
  proof (cases "adjust_sample_needed hist")
    case False
    then show ?thesis
      using less.prems sample_loop_done [OF False, of cassert] by simp
  next
    case True
    obtain h1 where h1: "hist_adjust_sample cassert hist = Inr h1" "hist_ok h1"
        "unit h1 = unit hist" "\<forall>j<16. bucket_get h1 j = bucket_get hist j div 2"
      using hist_adjust_sample_buckets [OF less.prems, of cassert] by auto
    have "nat (total_count h1) < nat (total_count hist)"
      using halving_decreases [OF h1(4) needed_nonempty [OF True]] by simp
    from less.hyps [OF this h1(2)] show ?thesis
      using sample_loop_step [OF True h1(1)] h1(3) by simp
  qed
qed

lemma hist_adjust_range_terminates:
  assumes "hist_ok hist" "\<not> int_lt_float8 (2 ^ 30) value"
  shows "\<exists>h. hist_adjust_range cassert hist value = Some (Inr h) \<and> hist_ok h
           \<and> \<not> int_lt_float8 (hist_maxvalue h) value \<and> unit hist \<le> unit h"
  using assms(1)
proof (induction "15 - unat (unit hist)" arbitrary: hist rule: less_induct)
  case less
  show ?case
  proof (cases "int_lt_float8 (hist_maxvalue hist) value")
    case False
    then show ?thesis
      using less.prems hist_adjust_range_done [OF False, of cassert] by simp
  next
    case True
    have "unat (unit hist) \<noteq> 15"
    proof
      assume "unat (unit hist) = 15"
      then have "hist_maxvalue hist = 2 ^ 30" by (simp add: hist_maxvalue_eq)
      then show False using True assms(2) by simp
    qed
    moreover have "unat (unit hist) < 16"
      using unsigned_less [of "unit hist"] by simp
    ultimately have u: "unat (unit hist) < 15" by simp
    obtain h1 where h1: "sample_loop cassert hist = Some (Inr h1)" "hist_ok h1"
        "\<not> adjust_sample_needed h1" "unit h1 = unit hist"
      using sample_loop_terminates [OF less.prems, of cassert] by blast
    obtain h2 where h2: "hist_adjust_unit cassert h1 = Inr h2" "hist_ok h2"
        "unit h2 = unit h1 + 1"
      using hist_adjust_unit_after_check [OF h1(2,3), of cassert] by blast
    have u2: "unat (unit h2) = unat (unit hist) + 1"
      using u h2(3) h1(4) by (simp add: unat_word_ariths)
    then have "15 - unat (unit h2) < 15 - unat (unit hist)"
      using u by simp
    from less.hyps [OF this h2(2)] obtain h where
      h: "hist_adjust_range cassert h2 value = Some (Inr h)" "hist_ok h"
        "\<not> int_lt_float8 (hist_maxvalue h) value" "unit h2 \<le> unit h"
      by blast
    have "unit hist \<le> unit h2"
      using u2 by (simp add: word_le_nat_alt)
    then show ?thesis
      using hist_adjust_range_step [OF True h1(1) h2(1)] h by auto
  qed
qed

section \<open>The claims\<close>

subsection \<open>The bit-field codec\<close>

text \<open>
  Claim C10.  Frame property of the codec: on a histogram with its 31 data bytes, for
  bucket indices \<open>i \<noteq> j\<close> below 16 and a value \<open>v < 2^width[i]\<close>, \<^verbatim>\<open>bucket_set(h, i, v)\<close>
  succeeds (with and without assertion checking) and \<^verbatim>\<open>bucket_get(h, j)\<close> returns the same
  value after the set as before.  The 16 bit ranges \<open>[offset[b], offset[b] + width[b])\<close>
  are pairwise disjoint and tile the 248 bits of the data region: every bit below 248
  lies in exactly one of them.
\<close>

theorem bucket_set_frame:
  assumes "hist_ok h" "i < 16" "j < 16" "j \<noteq> i" "v < 2 ^ (bucket_bits ! i)"
  shows "(\<exists>h'. bucket_set cassert h i v = Inr h' \<and> bucket_get h' j = bucket_get h j)
       \<and> (\<forall>k<248. \<exists>!b. b < 16 \<and> bucket_offset ! b \<le> k \<and> k < bucket_offset ! b + bucket_bits ! b)"
proof -
  have "bucket_set cassert h i v = Inr (bucket_store h i v)"
    using assms by (simp add: bucket_set_store)
  moreover have "bucket_get (bucket_store h i v) j = bucket_get h j"
    using assms by (simp add: bucket_get_store)
  ultimately show ?thesis
    using bucket_layout_tiles by auto
qed

text \<open>
  At a concrete input: storing 255 into bucket 0 of the example histogram leaves the 256
  of bucket 1 in place.
\<close>

theorem bucket_set_frame_witness:
  "\<exists>h'. bucket_set True hist_b1_256 0 255 = Inr h' \<and> bucket_get h' 1 = 256"
proof -
  have "(255::int) < 2 ^ (bucket_bits ! 0)"
    by (simp add: bucket_bits_def)
  then show ?thesis
    using bucket_set_frame [of hist_b1_256 0 1 255 True] hist_b1_256_ok
    by (simp add: hist_b1_256_get)
qed

subsection \<open>Sample escalation\<close>




subsection \<open>Unit escalation\<close>




subsection \<open>Binary send and receive\<close>

text \<open>
  Claim C9.  For every histogram, \<^verbatim>\<open>tinyhist_send\<close> emits exactly 17 payload bytes: one byte
  holding the sample exponent, then 16 bytes, one per bucket in index order, each the low
  8 bits of the decoded count of its bucket.  The unit exponent is not transmitted (the
  message does not depend on it), and \<^verbatim>\<open>tinyhist_recv\<close> of such a message succeeds and
  yields a histogram whose unit exponent is 0.
\<close>

theorem tinyhist_send_recv:
  "length (tinyhist_send hist) = 17
   \<and> uint (tinyhist_send hist ! 0) = uint (sample hist)
   \<and> (\<forall>i<16. uint (tinyhist_send hist ! (i + 1)) = bucket_get hist i mod 256)
   \<and> tinyhist_send (hist\<lparr>unit := u\<rparr>) = tinyhist_send hist
   \<and> (\<exists>h. tinyhist_recv cassert (tinyhist_send hist) = Inr h \<and> unit h = 0)"
proof -
  have len: "length (tinyhist_send hist) = 17"
    by (simp add: tinyhist_send_bytes)
  have first: "uint (tinyhist_send hist ! 0) = uint (sample hist)"
    by (simp add: tinyhist_send_bytes uint_up_ucast is_up)
  have rest: "\<forall>i<16. uint (tinyhist_send hist ! (i + 1)) = bucket_get hist i mod 256"
    by (simp add: tinyhist_send_bytes uint_word_of_int)
  have nounit: "tinyhist_send (hist\<lparr>unit := u\<rparr>) = tinyhist_send hist"
    by (simp add: tinyhist_send_bytes)
  obtain b msg where m: "tinyhist_send hist = b # msg" "length msg = 16"
    by (simp add: tinyhist_send_bytes)
  obtain h' where "for_loop
                (\<lambda>i (h, msg). case pq_getmsgbyte msg of
                                 Inl e \<Rightarrow> Inl e
                               | Inr (c, msg') \<Rightarrow>
                                   (case bucket_set cassert h i c of
                                      Inl e \<Rightarrow> Inl e
                                    | Inr h' \<Rightarrow> Inr (h', msg')))
                [0..<16] (palloc0_hist\<lparr>sample := word_of_int (uint b)\<rparr>, msg)
                  = Inr (h', drop (length [0..<16]) msg)"
      "unit h' = unit (palloc0_hist\<lparr>sample := word_of_int (uint b)\<rparr>)"
    using recv_loop [of "[0..<16]" msg cassert "palloc0_hist\<lparr>sample := word_of_int (uint b)\<rparr>"] m(2)
    by auto
  then have "tinyhist_recv cassert (tinyhist_send hist) = Inr h' \<and> unit h' = 0"
    using m(1) by (simp add: tinyhist_recv_def pq_getmsgbyte_def HISTOGRAM_BUCKETS_def palloc0_hist_def)
  then show ?thesis using len first rest nounit by blast
qed

text \<open>At a concrete input: the 256 of bucket 1 is sent as the byte 0.\<close>

theorem tinyhist_send_recv_witness:
  "length (tinyhist_send hist_b1_256) = 17
   \<and> bucket_get hist_b1_256 1 = 256
   \<and> uint (tinyhist_send hist_b1_256 ! 2) = 0
   \<and> (\<exists>h. tinyhist_recv True (tinyhist_send hist_b1_256) = Inr h \<and> unit h = 0)"
proof -
  note t = tinyhist_send_recv [of hist_b1_256 0 True]
  from t have all: "\<forall>i<16. uint (tinyhist_send hist_b1_256 ! (i + 1)) = bucket_get hist_b1_256 i mod 256"
    by blast
  have "(1::nat) < 16" by simp
  with all have "uint (tinyhist_send hist_b1_256 ! (1 + 1)) = bucket_get hist_b1_256 1 mod 256"
    by blast
  moreover have "(1::nat) + 1 = 2" by simp
  ultimately have "uint (tinyhist_send hist_b1_256 ! 2) = 0"
    by (simp only: hist_b1_256_get) simp
  then show ?thesis
    using t by (simp add: hist_b1_256_get)
qed

subsection \<open>The insertion bucket\<close>

text \<open>
  Claim C5, as amended.  For every histogram \<open>h\<close> and every finite value \<open>v\<close> with
  \<open>0 < v \<le> max_value(h)\<close>, \<^verbatim>\<open>bucket_index(h, v)\<close> returns the smallest \<open>i\<close> such that
  \<open>2^i * 2^unit_exp \<ge> v\<close>, and \<open>i < 16\<close>; equivalently it returns the unique \<open>i\<close> among the
  16 buckets with \<open>lower_i < v \<le> upper_i\<close>, where \<open>upper_i = 2^unit_exp * 2^i\<close>,
  \<open>lower_i = upper_i / 2\<close> for \<open>i > 0\<close> and \<open>lower_0 = 0\<close>: each bucket owns its upper
  boundary, not its lower one.
\<close>

theorem bucket_index_smallest:
  assumes "0 < x" "x \<le> real_of_int (hist_maxvalue hist)"
  shows "\<exists>i. bucket_index cassert hist (Finite x) = Inr i \<and> i < 16
           \<and> x \<le> real_of_int (2 ^ i * 2 ^ unat (unit hist))
           \<and> (\<forall>j<i. real_of_int (2 ^ j * 2 ^ unat (unit hist)) < x)
           \<and> (\<forall>k<16. real_of_int (bucket_lower hist k) < x
                        \<and> x \<le> real_of_int (bucket_upper hist k) \<longleftrightarrow> k = i)"
proof -
  let ?u = "(2::int) ^ unat (unit hist)"
  have u: "0 < ?u" by simp
  have mx: "x \<le> real_of_int (2 ^ 15 * ?u)"
    using assms(2) by (simp add: hist_maxvalue_eq)
  obtain i where i: "bucket_index_loop ?u (Finite x) 0 = Inr i" "i \<le> 15"
      "x \<le> real_of_int (2 ^ i * ?u)" "\<forall>j<i. real_of_int (2 ^ j * ?u) < x"
    using bucket_index_loop_finite [OF u mx, of 0] by auto
  have r: "bucket_index cassert hist (Finite x) = Inr i"
    using i(1,2) assms(2) by (simp add: bucket_index_def HISTOGRAM_BUCKETS_def)
  have uniq: "real_of_int (bucket_lower hist k) < x \<and> x \<le> real_of_int (bucket_upper hist k)
                \<longleftrightarrow> k = i" for k
  proof
    assume k: "real_of_int (bucket_lower hist k) < x \<and> x \<le> real_of_int (bucket_upper hist k)"
    show "k = i"
    proof (rule ccontr)
      assume "k \<noteq> i"
      then consider "k < i" | "i < k" by linarith
      then show False
      proof cases
        case 1
        then show ?thesis using i(4) k by (auto simp: bucket_bounds)
      next
        case 2
        then have "i \<le> k - 1" "k \<noteq> 0" by simp_all
        then have "(2::int) ^ i \<le> 2 ^ (k - 1)"
          by (intro power_increasing) simp_all
        then have "2 ^ i * ?u \<le> 2 ^ (k - 1) * ?u"
          by (intro mult_right_mono) simp_all
        then have "real_of_int (2 ^ i * ?u) \<le> real_of_int (bucket_lower hist k)"
          using \<open>k \<noteq> 0\<close> by (simp only: bucket_bounds if_False of_int_le_iff)
        then show ?thesis using i(3) k by linarith
      qed
    qed
  next
    assume ki: "k = i"
    show "real_of_int (bucket_lower hist k) < x \<and> x \<le> real_of_int (bucket_upper hist k)"
    proof (cases "i = 0")
      case True
      then show ?thesis using ki i(3) assms(1) by (simp add: bucket_bounds)
    next
      case False
      then have "i - 1 < i" by simp
      then have "real_of_int (2 ^ (i - 1) * ?u) < x" using i(4) by blast
      then show ?thesis using ki i(3) False by (simp only: bucket_bounds if_False)
    qed
  qed
  show ?thesis
    using r i uniq by (intro exI [of _ i]) auto
qed

text \<open>At a concrete input: with unit exponent 0 the value 100 goes to bucket 7, \<open>(64, 128]\<close>.\<close>

theorem bucket_index_smallest_witness:
  "bucket_index True palloc0_hist (Finite 100) = Inr 7
   \<and> real_of_int (bucket_lower palloc0_hist 7) < 100
   \<and> 100 \<le> real_of_int (bucket_upper palloc0_hist 7)"
proof -
  have a: "(0::real) < 100" by simp
  have b: "(100::real) \<le> real_of_int (hist_maxvalue palloc0_hist)"
    by (simp add: hist_maxvalue_eq palloc0_hist_def)
  have c: "real_of_int (bucket_lower palloc0_hist 7) < 100
           \<and> 100 \<le> real_of_int (bucket_upper palloc0_hist 7)"
    by (simp add: bucket_bounds palloc0_hist_def)
  from bucket_index_smallest [OF a b, of True]
  obtain i where i: "bucket_index True palloc0_hist (Finite 100) = Inr i"
    "\<forall>k<16. real_of_int (bucket_lower palloc0_hist k) < 100
                        \<and> 100 \<le> real_of_int (bucket_upper palloc0_hist k) \<longleftrightarrow> k = i"
    by blast
  have "(7::nat) < 16" by simp
  with i(2) c have "7 = i" by blast
  then show ?thesis using i(1) c by simp
qed

text \<open>
  The claim as stated, with the intervals \<open>[lower_i, upper_i)\<close>, fails on a boundary: with
  unit exponent 0 the value 1 lies in \<open>[lower_1, upper_1) = [1, 2)\<close> and not in
  \<open>[lower_0, upper_0) = [0, 1)\<close>, and \<^verbatim>\<open>bucket_index\<close> returns 0.
\<close>

theorem bucket_index_boundary:
  "bucket_index True palloc0_hist (Finite 1) = Inr 0
   \<and> bucket_index False palloc0_hist (Finite 1) = Inr 0
   \<and> bucket_lower palloc0_hist 0 = 0 \<and> bucket_upper palloc0_hist 0 = 1
   \<and> bucket_lower palloc0_hist 1 = 1 \<and> bucket_upper palloc0_hist 1 = 2"
  by (simp add: bucket_index_def hist_maxvalue_eq bucket_bounds palloc0_hist_def
      HISTOGRAM_BUCKETS_def)

subsection \<open>Text input\<close>

text \<open>
  Claim C1 is that parsing the text of a valid histogram succeeds and that re-rendering
  reproduces the 18 fields.  The code does not do that: \<^verbatim>\<open>tinyhist_in\<close> compares the
  result of \<^verbatim>\<open>sscanf\<close>, the number of fields assigned, with 32, and the format has 18
  conversions.  For the text that \<^verbatim>\<open>tinyhist_out\<close> prints for the zero histogram,
  \<^verbatim>\<open>sscanf\<close> assigns all 18 fields and \<^verbatim>\<open>tinyhist_in\<close> still raises its parse error.
\<close>

theorem tinyhist_in_rejects_tinyhist_out:
  "tinyhist_out palloc0_hist = ''{0, 0, 0, 0, 0, 0, 0, 0, 0, 0, 0, 0, 0, 0, 0, 0, 0, 0}''
   \<and> sscanf tinyhist_format (tinyhist_out palloc0_hist) []
       = (18, [0, 0, 0, 0, 0, 0, 0, 0, 0, 0, 0, 0, 0, 0, 0, 0, 0, 0])
   \<and> tinyhist_in True (tinyhist_out palloc0_hist) = Inl (Elog ''failed to parse tinyhist value'')
   \<and> tinyhist_in False (tinyhist_out palloc0_hist) = Inl (Elog ''failed to parse tinyhist value'')"
  by (simp only: tinyhist_out_palloc0 sscanf_zero_text tinyhist_in_fails simp_thms)

subsection \<open>The merge\<close>

text \<open>
  Claim C6.  In \<^verbatim>\<open>tinyhist_combine\<close> sample equalisation happens entirely before unit
  equalisation: the function computes exactly what the merge of the specification
  computes, which raises the smaller sample exponent to the maximum of the two first and
  the smaller unit exponent to the maximum of the two afterwards.  Whenever the merge
  returns a histogram, its maximum value is the maximum of the maximum values of the two
  inputs; and without assertion checking the merge always returns one.
\<close>

theorem tinyhist_combine_order:
  "tinyhist_combine cassert True (Some dst) src = merge_spec cassert dst src
   \<and> (\<forall>r s. tinyhist_combine cassert True (Some dst) src = Inr (r, s)
          \<longrightarrow> hist_maxvalue r = max (hist_maxvalue dst) (hist_maxvalue src))
   \<and> (\<exists>r s. tinyhist_combine False True (Some dst) src = Inr (r, s))"
proof -
  have "hist_maxvalue r = max (hist_maxvalue dst) (hist_maxvalue src)"
    if "tinyhist_combine cassert True (Some dst) src = Inr (r, s)" for r s
    using tinyhist_combine_unit [OF that] by (rule hist_maxvalue_max)
  then show ?thesis
    using tinyhist_combine_refines [of cassert dst src] tinyhist_combine_production [of dst src]
    by blast
qed

text \<open>
  At a concrete input: merging a histogram of unit exponent 0 into one of unit exponent 1
  gives the maximum value \<open>2^16\<close>.
\<close>

theorem tinyhist_combine_order_witness:
  "hist_maxvalue (palloc0_hist\<lparr>unit := 1\<rparr>) = 65536 \<and> hist_maxvalue hist_b1_200 = 32768
   \<and> (\<exists>r s. tinyhist_combine False True (Some (palloc0_hist\<lparr>unit := 1\<rparr>)) hist_b1_200 = Inr (r, s)
          \<and> hist_maxvalue r = 65536)"
proof -
  have m: "hist_maxvalue (palloc0_hist\<lparr>unit := 1\<rparr>) = 65536" "hist_maxvalue hist_b1_200 = 32768"
    by (simp_all add: hist_maxvalue_eq hist_b1_200_def)
  note t = tinyhist_combine_order [of False "palloc0_hist\<lparr>unit := 1\<rparr>" hist_b1_200]
  from t obtain r s where
    rs: "tinyhist_combine False True (Some (palloc0_hist\<lparr>unit := 1\<rparr>)) hist_b1_200 = Inr (r, s)"
    by blast
  with t have "hist_maxvalue r
                 = max (hist_maxvalue (palloc0_hist\<lparr>unit := 1\<rparr>)) (hist_maxvalue hist_b1_200)"
    by blast
  then have "hist_maxvalue r = 65536" by (simp add: m)
  then show ?thesis using rs m by blast
qed

subsection \<open>Termination\<close>

text \<open>
  Claim C4 is that every core operation terminates for every input, the loop of
  \<^verbatim>\<open>hist_adjust_range\<close> after at most about 16 unit escalations.  The code does not do
  that: the largest maximum value is \<open>2^15 * 2^15 = 2^30\<close>, the 4-bit unit exponent wraps
  from 15 to 0, and for a value above \<open>2^30\<close> the test \<^verbatim>\<open>hist_maxvalue(hist) < value\<close> stays
  true for ever.  Here the value is \<open>2^31\<close> and the histogram is the zero histogram:
  neither \<^verbatim>\<open>hist_adjust_range\<close> nor the accumulation of that value as the first value of an
  aggregate returns, with or without assertion checking.
\<close>

theorem hist_adjust_range_loops_forever:
  "hist_maxvalue palloc0_hist = 32768
   \<and> hist_adjust_range True palloc0_hist (Finite 2147483648) = None
   \<and> hist_adjust_range False palloc0_hist (Finite 2147483648) = None
   \<and> tinyhist_accum True True None (Some (Finite 2147483648)) 0 = None
   \<and> tinyhist_accum False True None (Some (Finite 2147483648)) 0 = None"
proof -
  have big: "int_lt_float8 (2 ^ 30) (Finite 2147483648)"
    by simp
  have none: "hist_adjust_range cassert palloc0_hist (Finite 2147483648) = None" for cassert
    using hist_adjust_range_diverges [OF palloc0_ok big] .
  have "hist_sample palloc0_hist 0"
    by (simp add: hist_sample_def)
  then have "tinyhist_accum cassert True None (Some (Finite 2147483648)) 0 = None" for cassert
    by (simp add: tinyhist_accum_def none)
  moreover have "hist_maxvalue palloc0_hist = 32768"
    by (simp add: hist_maxvalue_eq palloc0_hist_def)
  ultimately show ?thesis using none by simp
qed

subsection \<open>Monotonic exponents\<close>

text \<open>
  Claim C3 is that \<^verbatim>\<open>hist_adjust_range\<close> establishes \<open>max_value(h) \<ge> v\<close> and never decreases
  the unit or the sample exponent, and that the exponents never decrease across any
  operation.  The code does not do that for the sample exponent: \<^verbatim>\<open>hist->sample++\<close> on the
  4-bit field wraps from 15 to 0.  Here the histogram has sample exponent 15, unit
  exponent 0 and 256 in bucket 1, and the value is 40000: the range loop halves the
  buckets once, which takes the sample exponent from 15 to 0, then widens the unit, and
  returns a histogram with maximum value \<open>2^16\<close>, unit exponent 1 and sample exponent 0.
\<close>

theorem hist_adjust_range_lowers_sample:
  "unat (sample (hist_b1_256\<lparr>sample := 15\<rparr>)) = 15
   \<and> hist_adjust_range True (hist_b1_256\<lparr>sample := 15\<rparr>) (Finite 40000)
       = Some (Inr hist_b0_128_u1)
   \<and> hist_adjust_range False (hist_b1_256\<lparr>sample := 15\<rparr>) (Finite 40000)
       = Some (Inr hist_b0_128_u1)
   \<and> unat (sample hist_b0_128_u1) = 0
   \<and> hist_maxvalue hist_b0_128_u1 = 65536"
  by (simp add: hist_adjust_range_wraps_sample hist_maxvalue_eq)
     (simp add: hist_b0_128_u1_def)

subsection \<open>Capacity of the buckets in a merge\<close>

text \<open>
  Claim C2 is that no reachable histogram is ever given a bucket value at or above the
  capacity of the bucket, in particular not by the unit equalisation of a merge.  The code
  does not do that: \<^verbatim>\<open>tinyhist_combine\<close> calls \<^verbatim>\<open>hist_adjust_unit\<close> without the test that
  \<^verbatim>\<open>hist_adjust_range\<close> makes first.  Both histograms here are reachable: 256 accumulations
  of the value 2 give 256 in bucket 1, and one accumulation of 40000 gives unit exponent 1
  and 1 in bucket 15.  Merging the first into the second sets bucket 0 (capacity \<open>2^8\<close>)
  to \<open>0 + 256\<close>: with assertion checking the assertion of \<^verbatim>\<open>bucket_set\<close> fails, without it
  the bucket keeps the low 8 bits, which are 0, and the merge returns the second histogram
  unchanged, a total of 1 for 257 values.
\<close>

theorem combine_overflows_bucket:
  "reachable hist_b1_256 \<and> reachable hist_u1_b15_1
   \<and> bucket_get hist_b1_256 1 = 256 \<and> bucket_get hist_u1_b15_1 15 = 1
   \<and> tinyhist_combine True True (Some hist_u1_b15_1) hist_b1_256 = Inl AssertFailed
   \<and> tinyhist_combine False True (Some hist_u1_b15_1) hist_b1_256
       = Inr (hist_u1_b15_1, palloc0_hist\<lparr>unit := 1\<rparr>)"
  by (simp add: reachable_b1_256 reachable_u1_b15_1 combine_256_assert combine_256_production
      hist_b1_256_get hist_u1_b15_1_get)

end
